theory Spec2Isabelle
  imports Main
begin

section \<open>Python list primitives\<close>

text \<open>The only exception the B+ tree code can raise on integer keys is Python's
  IndexError, from a list subscript, an item assignment or a pop out of range.\<close>

datatype error = IndexError

text \<open>The position that a subscript \<open>i\<close> denotes in a list of \<open>n\<close> items: from
  the front when \<open>i\<close> is not negative, from the end when it is; none when out of range.\<close>

definition py_pos :: "nat \<Rightarrow> int \<Rightarrow> nat option" where
  "py_pos n i =
     (if 0 \<le> i \<and> i < int n then Some (nat i)
      else if i < 0 \<and> - int n \<le> i then Some (nat (int n + i))
      else None)"

text \<open>The subscript \<^verbatim>\<open>xs[i]\<close>.\<close>

definition py_index :: "'a list \<Rightarrow> int \<Rightarrow> error + 'a" where
  "py_index xs i = (case py_pos (length xs) i of None \<Rightarrow> Inl IndexError | Some j \<Rightarrow> Inr (xs ! j))"

text \<open>Item assignment \<^verbatim>\<open>xs[i] = v\<close>.\<close>

definition py_setitem :: "'a list \<Rightarrow> int \<Rightarrow> 'a \<Rightarrow> error + 'a list" where
  "py_setitem xs i v =
     (case py_pos (length xs) i of None \<Rightarrow> Inl IndexError | Some j \<Rightarrow> Inr (xs[j := v]))"

text \<open>\<^verbatim>\<open>xs.insert(i, v)\<close> never raises: the position is clamped to the list.\<close>

definition py_insert :: "'a list \<Rightarrow> int \<Rightarrow> 'a \<Rightarrow> 'a list" where
  "py_insert xs i v =
     (let j = (if i < 0 then nat (int (length xs) + i) else nat i)
      in take j xs @ v # drop j xs)"

text \<open>\<^verbatim>\<open>xs.pop(i)\<close> returns the removed item and the shortened list.\<close>

definition py_pop :: "'a list \<Rightarrow> int \<Rightarrow> error + ('a \<times> 'a list)" where
  "py_pop xs i =
     (case py_pos (length xs) i of
        None \<Rightarrow> Inl IndexError
      | Some j \<Rightarrow> Inr (xs ! j, take j xs @ drop (Suc j) xs))"

text \<open>The slices \<^verbatim>\<open>xs[i:]\<close> and \<^verbatim>\<open>xs[:i]\<close> never raise.\<close>

definition py_slice_from :: "'a list \<Rightarrow> int \<Rightarrow> 'a list" where
  "py_slice_from xs i = drop (if i < 0 then nat (int (length xs) + i) else nat i) xs"

definition py_slice_to :: "'a list \<Rightarrow> int \<Rightarrow> 'a list" where
  "py_slice_to xs i = take (if i < 0 then nat (int (length xs) + i) else nat i) xs"

section \<open>Nodes and the object store\<close>

type_synonym ref = nat

text \<open>class BPlusNode: the fields leaf, keys, children and next (here \<open>nxt\<close>).\<close>

record BPlusNode =
  leaf :: bool
  keys :: "int list"
  children :: "ref list"
  nxt :: "ref option"

text \<open>Nodes are mutable objects reached through references, and the leaf chain
  aliases nodes that the parents own, so the objects live in an explicit store: the
  list of all node objects made so far, a reference being the position of its object.
  A reference is only ever obtained from \<open>new_node\<close>, which appends, and no object
  is ever removed, so every reference that a run holds is below the length of the store.\<close>

type_synonym heap = "BPlusNode list"

definition node :: "heap \<Rightarrow> ref \<Rightarrow> BPlusNode" where
  "node h a = h ! a"

definition set_keys :: "heap \<Rightarrow> ref \<Rightarrow> int list \<Rightarrow> heap" where
  "set_keys h a ks = h[a := (h ! a)\<lparr>keys := ks\<rparr>]"

definition set_children :: "heap \<Rightarrow> ref \<Rightarrow> ref list \<Rightarrow> heap" where
  "set_children h a cs = h[a := (h ! a)\<lparr>children := cs\<rparr>]"

definition set_nxt :: "heap \<Rightarrow> ref \<Rightarrow> ref option \<Rightarrow> heap" where
  "set_nxt h a n = h[a := (h ! a)\<lparr>nxt := n\<rparr>]"

text \<open>BPlusNode.__init__(leaf): a new object with empty keys and children and no next.\<close>

definition new_node :: "heap \<Rightarrow> bool \<Rightarrow> ref \<times> heap" where
  "new_node h lf = (length h, h @ [\<lparr>leaf = lf, keys = [], children = [], nxt = None\<rparr>])"

section \<open>The tree\<close>

record BPlusTree =
  heap :: heap
  root :: ref
  t :: int

text \<open>BPlusTree.__init__(t): a leaf root and the minimum degree, with no check of t.\<close>

definition BPlusTree_init :: "int \<Rightarrow> error + BPlusTree" where
  "BPlusTree_init t0 =
     (let (r, h) = new_node [] True
      in Inr \<lparr>heap = h, root = r, t = t0\<rparr>)"

subsection \<open>search\<close>

text \<open>The loop \<^verbatim>\<open>i = 0; while i < len(keys) and k > keys[i]: i += 1\<close> leaves in i
  the number of leading keys below k.\<close>

fun scan_up :: "int list \<Rightarrow> int \<Rightarrow> nat" where
  "scan_up [] k = 0"
| "scan_up (x # xs) k = (if k > x then Suc (scan_up xs k) else 0)"

partial_function (option) search_internal ::
  "heap \<Rightarrow> ref \<Rightarrow> int \<Rightarrow> (error + (ref \<times> nat) option) option" where
  "search_internal h x k =
     (let i = scan_up (keys (node h x)) k in
      if leaf (node h x) then
        (if i < length (keys (node h x)) \<and> keys (node h x) ! i = k
         then Some (Inr (Some (x, i)))
         else Some (Inr None))
      else
        (case py_index (children (node h x)) (int i) of
           Inl e \<Rightarrow> Some (Inl e)
         | Inr c \<Rightarrow> search_internal h c k))"

declare search_internal.simps [code]

definition search :: "BPlusTree \<Rightarrow> int \<Rightarrow> (error + (ref \<times> nat) option) option" where
  "search tr k = search_internal (heap tr) (root tr) k"

subsection \<open>insert\<close>

text \<open>_split_child(x, i), statement by statement; every read goes to the current store.\<close>

definition split_child :: "int \<Rightarrow> heap \<Rightarrow> ref \<Rightarrow> int \<Rightarrow> error + heap" where
  "split_child t0 h x i =
     (case py_index (children (node h x)) i of
        Inl e \<Rightarrow> Inl e
      | Inr y \<Rightarrow>
          (let (z, h1) = new_node h (leaf (node h y));
               h2 = set_children h1 x (py_insert (children (node h1 x)) (i + 1) z)
           in case py_index (keys (node h2 y)) (t0 - 1) of
                Inl e \<Rightarrow> Inl e
              | Inr m \<Rightarrow>
                  (let h3 = set_keys h2 x (py_insert (keys (node h2 x)) i m);
                       h4 = set_keys h3 z (py_slice_from (keys (node h3 y)) t0);
                       h5 = set_keys h4 y (py_slice_to (keys (node h4 y)) t0)
                   in if \<not> leaf (node h5 y) then
                        (let h6 = set_children h5 z (py_slice_from (children (node h5 y)) t0);
                             h7 = set_children h6 y (py_slice_to (children (node h6 y)) t0)
                         in Inr h7)
                      else
                        (let h6 = set_nxt h5 z (nxt (node h5 y));
                             h7 = set_nxt h6 y (Some z)
                         in Inr h7))))"

text \<open>The loop \<^verbatim>\<open>i = len(keys) - 1; while i >= 0 and k < keys[i]: i -= 1\<close>, started
  with \<open>j = len(keys)\<close>, returns \<open>i + 1\<close>: the keys at \<open>j - 1\<close>, \<open>j - 2\<close>, ... are
  passed as long as they are above k.\<close>

fun scan_down :: "int list \<Rightarrow> nat \<Rightarrow> int \<Rightarrow> nat" where
  "scan_down ks 0 k = 0"
| "scan_down ks (Suc i) k = (if k < ks ! i then scan_down ks i k else Suc i)"

partial_function (option) insert_non_full ::
  "int \<Rightarrow> heap \<Rightarrow> ref \<Rightarrow> int \<Rightarrow> (error + heap) option" where
  "insert_non_full t0 h x k =
     (let j = scan_down (keys (node h x)) (length (keys (node h x))) k in
      if leaf (node h x) then
        Some (Inr (set_keys h x (take j (keys (node h x)) @ k # drop j (keys (node h x)))))
      else
        (case py_index (children (node h x)) (int j) of
           Inl e \<Rightarrow> Some (Inl e)
         | Inr c \<Rightarrow>
             if int (length (keys (node h c))) = 2 * t0 - 1 then
               (case split_child t0 h x (int j) of
                  Inl e \<Rightarrow> Some (Inl e)
                | Inr h' \<Rightarrow>
                    (case py_index (keys (node h' x)) (int j) of
                       Inl e \<Rightarrow> Some (Inl e)
                     | Inr s \<Rightarrow>
                         (let j' = (if k > s then j + 1 else j)
                          in case py_index (children (node h' x)) (int j') of
                               Inl e \<Rightarrow> Some (Inl e)
                             | Inr c' \<Rightarrow> insert_non_full t0 h' c' k)))
             else insert_non_full t0 h c k))"

declare insert_non_full.simps [code]

definition insert_key :: "BPlusTree \<Rightarrow> int \<Rightarrow> (error + BPlusTree) option" where
  "insert_key tr k =
     (if int (length (keys (node (heap tr) (root tr)))) = 2 * t tr - 1 then
        (let (new_root, h1) = new_node (heap tr) False;
             h2 = set_children h1 new_root (py_insert (children (node h1 new_root)) 0 (root tr))
         in case split_child (t tr) h2 new_root 0 of
              Inl e \<Rightarrow> Some (Inl e)
            | Inr h3 \<Rightarrow>
                (case insert_non_full (t tr) h3 new_root k of
                   None \<Rightarrow> None
                 | Some (Inl e) \<Rightarrow> Some (Inl e)
                 | Some (Inr h4) \<Rightarrow> Some (Inr (tr\<lparr>heap := h4, root := new_root\<rparr>))))
      else
        (case insert_non_full (t tr) (heap tr) (root tr) k of
           None \<Rightarrow> None
         | Some (Inl e) \<Rightarrow> Some (Inl e)
         | Some (Inr h1) \<Rightarrow> Some (Inr (tr\<lparr>heap := h1\<rparr>))))"

subsection \<open>delete\<close>

text \<open>The loop of _get_pred: down the last children to a leaf, then its last key.\<close>

partial_function (option) get_pred_loop :: "heap \<Rightarrow> ref \<Rightarrow> (error + int) option" where
  "get_pred_loop h current =
     (if \<not> leaf (node h current) then
        (case py_index (children (node h current)) (- 1) of
           Inl e \<Rightarrow> Some (Inl e)
         | Inr c \<Rightarrow> get_pred_loop h c)
      else Some (py_index (keys (node h current)) (- 1)))"

declare get_pred_loop.simps [code]

definition get_pred :: "heap \<Rightarrow> ref \<Rightarrow> int \<Rightarrow> (error + int) option" where
  "get_pred h x i =
     (case py_index (children (node h x)) i of
        Inl e \<Rightarrow> Some (Inl e)
      | Inr c \<Rightarrow> get_pred_loop h c)"

text \<open>The loop of _get_succ: down the first children to a leaf, then its first key.\<close>

partial_function (option) get_succ_loop :: "heap \<Rightarrow> ref \<Rightarrow> (error + int) option" where
  "get_succ_loop h current =
     (if \<not> leaf (node h current) then
        (case py_index (children (node h current)) 0 of
           Inl e \<Rightarrow> Some (Inl e)
         | Inr c \<Rightarrow> get_succ_loop h c)
      else Some (py_index (keys (node h current)) 0))"

declare get_succ_loop.simps [code]

definition get_succ :: "heap \<Rightarrow> ref \<Rightarrow> int \<Rightarrow> (error + int) option" where
  "get_succ h x i =
     (case py_index (children (node h x)) (i + 1) of
        Inl e \<Rightarrow> Some (Inl e)
      | Inr c \<Rightarrow> get_succ_loop h c)"

definition borrow_from_prev :: "heap \<Rightarrow> ref \<Rightarrow> int \<Rightarrow> error + heap" where
  "borrow_from_prev h x i =
     (case py_index (children (node h x)) i of
        Inl e \<Rightarrow> Inl e
      | Inr child \<Rightarrow>
     (case py_index (children (node h x)) (i - 1) of
        Inl e \<Rightarrow> Inl e
      | Inr sibling \<Rightarrow>
     (case py_index (keys (node h x)) (i - 1) of
        Inl e \<Rightarrow> Inl e
      | Inr s \<Rightarrow>
     (let h1 = set_keys h child (py_insert (keys (node h child)) 0 s)
      in case py_pop (keys (node h1 sibling)) (- 1) of
        Inl e \<Rightarrow> Inl e
      | Inr (v, rest) \<Rightarrow>
     (let h2 = set_keys h1 sibling rest
      in case py_setitem (keys (node h2 x)) (i - 1) v of
        Inl e \<Rightarrow> Inl e
      | Inr ks \<Rightarrow>
     (let h3 = set_keys h2 x ks
      in if \<not> leaf (node h3 child) then
           (case py_pop (children (node h3 sibling)) (- 1) of
              Inl e \<Rightarrow> Inl e
            | Inr (c, crest) \<Rightarrow>
                (let h4 = set_children h3 sibling crest
                 in Inr (set_children h4 child (py_insert (children (node h4 child)) 0 c))))
         else Inr h3))))))"

definition borrow_from_next :: "heap \<Rightarrow> ref \<Rightarrow> int \<Rightarrow> error + heap" where
  "borrow_from_next h x i =
     (case py_index (children (node h x)) i of
        Inl e \<Rightarrow> Inl e
      | Inr child \<Rightarrow>
     (case py_index (children (node h x)) (i + 1) of
        Inl e \<Rightarrow> Inl e
      | Inr sibling \<Rightarrow>
     (case py_index (keys (node h x)) i of
        Inl e \<Rightarrow> Inl e
      | Inr s \<Rightarrow>
     (let h1 = set_keys h child (keys (node h child) @ [s])
      in case py_pop (keys (node h1 sibling)) 0 of
        Inl e \<Rightarrow> Inl e
      | Inr (v, rest) \<Rightarrow>
     (let h2 = set_keys h1 sibling rest
      in case py_setitem (keys (node h2 x)) i v of
        Inl e \<Rightarrow> Inl e
      | Inr ks \<Rightarrow>
     (let h3 = set_keys h2 x ks
      in if \<not> leaf (node h3 child) then
           (case py_pop (children (node h3 sibling)) 0 of
              Inl e \<Rightarrow> Inl e
            | Inr (c, crest) \<Rightarrow>
                (let h4 = set_children h3 sibling crest
                 in Inr (set_children h4 child (children (node h4 child) @ [c]))))
         else Inr h3))))))"

definition merge :: "heap \<Rightarrow> ref \<Rightarrow> int \<Rightarrow> error + heap" where
  "merge h x i =
     (case py_index (children (node h x)) i of
        Inl e \<Rightarrow> Inl e
      | Inr child \<Rightarrow>
     (case py_index (children (node h x)) (i + 1) of
        Inl e \<Rightarrow> Inl e
      | Inr sibling \<Rightarrow>
     (case py_index (keys (node h x)) i of
        Inl e \<Rightarrow> Inl e
      | Inr s \<Rightarrow>
     (let h1 = set_keys h child (keys (node h child) @ [s]);
          h2 = set_keys h1 child (keys (node h1 child) @ keys (node h1 sibling));
          h3 = (if \<not> leaf (node h2 child)
                then set_children h2 child (children (node h2 child) @ children (node h2 sibling))
                else h2)
      in case py_pop (keys (node h3 x)) i of
        Inl e \<Rightarrow> Inl e
      | Inr (_, ks) \<Rightarrow>
     (let h4 = set_keys h3 x ks
      in case py_pop (children (node h4 x)) (i + 1) of
        Inl e \<Rightarrow> Inl e
      | Inr (_, cs) \<Rightarrow>
     (let h5 = set_children h4 x cs
      in Inr (set_nxt h5 child (nxt (node h5 sibling)))))))))"

text \<open>The length test \<^verbatim>\<open>len(x.children[j].keys) >= t\<close>.\<close>

definition child_has_spare :: "int \<Rightarrow> heap \<Rightarrow> ref \<Rightarrow> int \<Rightarrow> error + bool" where
  "child_has_spare t0 h x j =
     (case py_index (children (node h x)) j of
        Inl e \<Rightarrow> Inl e
      | Inr c \<Rightarrow> Inr (int (length (keys (node h c))) \<ge> t0))"

text \<open>The if/elif block of _delete_internal that refills child i before the descent.\<close>

definition fill_child :: "int \<Rightarrow> heap \<Rightarrow> ref \<Rightarrow> nat \<Rightarrow> error + heap" where
  "fill_child t0 h x i =
     (if i \<noteq> 0 \<and> i + 2 < length (children (node h x)) then
        (case child_has_spare t0 h x (int i - 1) of
           Inl e \<Rightarrow> Inl e
         | Inr b \<Rightarrow>
             if b then borrow_from_prev h x (int i)
             else
               (case child_has_spare t0 h x (int i + 1) of
                  Inl e \<Rightarrow> Inl e
                | Inr b' \<Rightarrow>
                    if b' then borrow_from_next h x (int i)
                    else merge h x (int i)))
      else if i = 0 then
        (case child_has_spare t0 h x (int i + 1) of
           Inl e \<Rightarrow> Inl e
         | Inr b \<Rightarrow>
             if b then borrow_from_next h x (int i)
             else merge h x (int i))
      else if i + 1 = length (children (node h x)) then
        (case child_has_spare t0 h x (int i - 1) of
           Inl e \<Rightarrow> Inl e
         | Inr b \<Rightarrow>
             if b then borrow_from_prev h x (int i)
             else merge h x (int i - 1))
      else Inr h)"

text \<open>_delete_internal and _delete_from_internal_node call each other; they are one
  recursive function over the two kinds of call.\<close>

datatype call = DeleteInternal ref int | DeleteFromInternalNode ref int int

partial_function (option) delete_rec :: "int \<Rightarrow> heap \<Rightarrow> call \<Rightarrow> (error + heap) option" where
  "delete_rec t0 h c =
     (case c of
        DeleteInternal x k \<Rightarrow>
          (let i = scan_up (keys (node h x)) k in
           if leaf (node h x) then
             (if i < length (keys (node h x)) \<and> keys (node h x) ! i = k then
                (case py_pop (keys (node h x)) (int i) of
                   Inl e \<Rightarrow> Some (Inl e)
                 | Inr (_, ks) \<Rightarrow> Some (Inr (set_keys h x ks)))
              else Some (Inr h))
           else if i < length (keys (node h x)) \<and> keys (node h x) ! i = k then
             delete_rec t0 h (DeleteFromInternalNode x k (int i))
           else
             (case child_has_spare t0 h x (int i) of
                Inl e \<Rightarrow> Some (Inl e)
              | Inr b \<Rightarrow>
                  if b then
                    (case py_index (children (node h x)) (int i) of
                       Inl e \<Rightarrow> Some (Inl e)
                     | Inr c \<Rightarrow> delete_rec t0 h (DeleteInternal c k))
                  else
                    (case fill_child t0 h x i of
                       Inl e \<Rightarrow> Some (Inl e)
                     | Inr h' \<Rightarrow>
                         (case py_index (children (node h' x)) (int i) of
                            Inl e \<Rightarrow> Some (Inl e)
                          | Inr c \<Rightarrow> delete_rec t0 h' (DeleteInternal c k)))))
      | DeleteFromInternalNode x k i \<Rightarrow>
          (if leaf (node h x) then
             (case py_index (keys (node h x)) i of
                Inl e \<Rightarrow> Some (Inl e)
              | Inr v \<Rightarrow>
                  if v = k then
                    (case py_pop (keys (node h x)) i of
                       Inl e \<Rightarrow> Some (Inl e)
                     | Inr (_, ks) \<Rightarrow> Some (Inr (set_keys h x ks)))
                  else Some (Inr h))
           else
             (case child_has_spare t0 h x i of
                Inl e \<Rightarrow> Some (Inl e)
              | Inr b \<Rightarrow>
                  if b then
                    (case get_pred h x i of
                       None \<Rightarrow> None
                     | Some (Inl e) \<Rightarrow> Some (Inl e)
                     | Some (Inr p) \<Rightarrow>
                         (case py_setitem (keys (node h x)) i p of
                            Inl e \<Rightarrow> Some (Inl e)
                          | Inr ks \<Rightarrow>
                              (let h1 = set_keys h x ks
                               in case py_index (children (node h1 x)) i of
                                    Inl e \<Rightarrow> Some (Inl e)
                                  | Inr c \<Rightarrow>
                                      (case py_index (keys (node h1 x)) i of
                                         Inl e \<Rightarrow> Some (Inl e)
                                       | Inr k' \<Rightarrow> delete_rec t0 h1 (DeleteInternal c k')))))
                  else
                    (case child_has_spare t0 h x (i + 1) of
                       Inl e \<Rightarrow> Some (Inl e)
                     | Inr b' \<Rightarrow>
                         if b' then
                           (case get_succ h x i of
                              None \<Rightarrow> None
                            | Some (Inl e) \<Rightarrow> Some (Inl e)
                            | Some (Inr p) \<Rightarrow>
                                (case py_setitem (keys (node h x)) i p of
                                   Inl e \<Rightarrow> Some (Inl e)
                                 | Inr ks \<Rightarrow>
                                     (let h1 = set_keys h x ks
                                      in case py_index (children (node h1 x)) (i + 1) of
                                           Inl e \<Rightarrow> Some (Inl e)
                                         | Inr c \<Rightarrow>
                                             (case py_index (keys (node h1 x)) i of
                                                Inl e \<Rightarrow> Some (Inl e)
                                              | Inr k' \<Rightarrow>
                                                  delete_rec t0 h1 (DeleteInternal c k')))))
                         else
                           (case merge h x i of
                              Inl e \<Rightarrow> Some (Inl e)
                            | Inr h' \<Rightarrow>
                                (case py_index (children (node h' x)) i of
                                   Inl e \<Rightarrow> Some (Inl e)
                                 | Inr c \<Rightarrow> delete_rec t0 h' (DeleteInternal c k)))))))"

declare delete_rec.simps [code]

definition delete_internal :: "int \<Rightarrow> heap \<Rightarrow> ref \<Rightarrow> int \<Rightarrow> (error + heap) option" where
  "delete_internal t0 h x k = delete_rec t0 h (DeleteInternal x k)"

definition delete_from_internal_node ::
  "int \<Rightarrow> heap \<Rightarrow> ref \<Rightarrow> int \<Rightarrow> int \<Rightarrow> (error + heap) option" where
  "delete_from_internal_node t0 h x k i = delete_rec t0 h (DeleteFromInternalNode x k i)"

definition delete_key :: "BPlusTree \<Rightarrow> int \<Rightarrow> (error + BPlusTree) option" where
  "delete_key tr k =
     (case delete_internal (t tr) (heap tr) (root tr) k of
        None \<Rightarrow> None
      | Some (Inl e) \<Rightarrow> Some (Inl e)
      | Some (Inr h) \<Rightarrow>
          if length (keys (node h (root tr))) = 0 \<and> \<not> leaf (node h (root tr)) then
            (case py_index (children (node h (root tr))) 0 of
               Inl e \<Rightarrow> Some (Inl e)
             | Inr c \<Rightarrow> Some (Inr (tr\<lparr>heap := h, root := c\<rparr>)))
          else Some (Inr (tr\<lparr>heap := h\<rparr>)))"

subsection \<open>range_query\<close>

partial_function (option) find_leaf :: "heap \<Rightarrow> ref \<Rightarrow> int \<Rightarrow> (error + ref) option" where
  "find_leaf h x k =
     (if leaf (node h x) then Some (Inr x)
      else
        (case py_index (children (node h x)) (int (scan_up (keys (node h x)) k)) of
           Inl e \<Rightarrow> Some (Inl e)
         | Inr c \<Rightarrow> find_leaf h c k))"

declare find_leaf.simps [code]

text \<open>The for loop over one leaf: the result so far, and whether the scan returned
  from inside the loop (a key above \<open>end\<close>).\<close>

fun scan_leaf :: "int list \<Rightarrow> int \<Rightarrow> int \<Rightarrow> int list \<Rightarrow> int list \<times> bool" where
  "scan_leaf [] start end result = (result, False)"
| "scan_leaf (key # ks) start end result =
     (if start \<le> key \<and> key \<le> end then scan_leaf ks start end (result @ [key])
      else if key > end then (result, True)
      else scan_leaf ks start end result)"

text \<open>The while loop along the leaf chain.\<close>

partial_function (option) range_loop ::
  "heap \<Rightarrow> int \<Rightarrow> int \<Rightarrow> ref option \<Rightarrow> int list \<Rightarrow> (error + int list) option" where
  "range_loop h start end lf result =
     (case lf of
        None \<Rightarrow> Some (Inr result)
      | Some l \<Rightarrow>
          (case scan_leaf (keys (node h l)) start end result of
             (result', stop) \<Rightarrow>
               if stop then Some (Inr result')
               else range_loop h start end (nxt (node h l)) result'))"

declare range_loop.simps [code]

definition range_query :: "BPlusTree \<Rightarrow> int \<Rightarrow> int \<Rightarrow> (error + int list) option" where
  "range_query tr start end =
     (case find_leaf (heap tr) (root tr) start of
        None \<Rightarrow> None
      | Some (Inl e) \<Rightarrow> Some (Inl e)
      | Some (Inr l) \<Rightarrow> range_loop (heap tr) start end (Some l) [])"

subsection \<open>Sequences of operations\<close>

datatype op = Insert int | Delete int

fun apply_op :: "BPlusTree \<Rightarrow> op \<Rightarrow> (error + BPlusTree) option" where
  "apply_op tr (Insert k) = insert_key tr k"
| "apply_op tr (Delete k) = delete_key tr k"

fun run :: "BPlusTree \<Rightarrow> op list \<Rightarrow> (error + BPlusTree) option" where
  "run tr [] = Some (Inr tr)"
| "run tr (o1 # os) =
     (case apply_op tr o1 of
        None \<Rightarrow> None
      | Some (Inl e) \<Rightarrow> Some (Inl e)
      | Some (Inr tr') \<Rightarrow> run tr' os)"

text \<open>A new index with minimum degree \<open>t0\<close>, then the operations in order.\<close>

definition build :: "int \<Rightarrow> op list \<Rightarrow> (error + BPlusTree) option" where
  "build t0 os = (case BPlusTree_init t0 of Inl e \<Rightarrow> Some (Inl e) | Inr tr \<Rightarrow> run tr os)"

section \<open>Observations on an index built from a new one\<close>

text \<open>The result of range_query on the index that the operations produce.\<close>

definition range_query_after :: "int \<Rightarrow> op list \<Rightarrow> int \<Rightarrow> int \<Rightarrow> (error + int list) option" where
  "range_query_after t0 os start end =
     (case build t0 os of
        None \<Rightarrow> None
      | Some (Inl e) \<Rightarrow> Some (Inl e)
      | Some (Inr tr) \<Rightarrow> range_query tr start end)"

definition search_after :: "int \<Rightarrow> op list \<Rightarrow> int \<Rightarrow> (error + (ref \<times> nat) option) option" where
  "search_after t0 os k =
     (case build t0 os of
        None \<Rightarrow> None
      | Some (Inl e) \<Rightarrow> Some (Inl e)
      | Some (Inr tr) \<Rightarrow> search tr k)"

text \<open>The leaf chain read from the leftmost leaf: down the first children to a leaf,
  then along the next references, collecting every key.\<close>

partial_function (option) leftmost_leaf :: "heap \<Rightarrow> ref \<Rightarrow> (error + ref) option" where
  "leftmost_leaf h x =
     (if leaf (node h x) then Some (Inr x)
      else
        (case py_index (children (node h x)) 0 of
           Inl e \<Rightarrow> Some (Inl e)
         | Inr c \<Rightarrow> leftmost_leaf h c))"

declare leftmost_leaf.simps [code]

partial_function (option) chain_keys ::
  "heap \<Rightarrow> ref option \<Rightarrow> int list \<Rightarrow> (error + int list) option" where
  "chain_keys h lf acc =
     (case lf of
        None \<Rightarrow> Some (Inr acc)
      | Some l \<Rightarrow> chain_keys h (nxt (node h l)) (acc @ keys (node h l)))"

declare chain_keys.simps [code]

definition leaf_chain :: "BPlusTree \<Rightarrow> (error + int list) option" where
  "leaf_chain tr =
     (case leftmost_leaf (heap tr) (root tr) of
        None \<Rightarrow> None
      | Some (Inl e) \<Rightarrow> Some (Inl e)
      | Some (Inr l) \<Rightarrow> chain_keys (heap tr) (Some l) [])"

definition leaf_chain_after :: "int \<Rightarrow> op list \<Rightarrow> (error + int list) option" where
  "leaf_chain_after t0 os =
     (case build t0 os of
        None \<Rightarrow> None
      | Some (Inl e) \<Rightarrow> Some (Inl e)
      | Some (Inr tr) \<Rightarrow> leaf_chain tr)"

text \<open>The node object that is child number \<open>i\<close> of the root.\<close>

definition root_child_after :: "int \<Rightarrow> op list \<Rightarrow> int \<Rightarrow> (error + BPlusNode) option" where
  "root_child_after t0 os i =
     (case build t0 os of
        None \<Rightarrow> None
      | Some (Inl e) \<Rightarrow> Some (Inl e)
      | Some (Inr tr) \<Rightarrow>
          (case py_index (children (node (heap tr) (root tr))) i of
             Inl e \<Rightarrow> Some (Inl e)
           | Inr c \<Rightarrow> Some (Inr (node (heap tr) c))))"

text \<open>_merge(root, i) on the index that the operations produce: the keys left in the
  root, and the keys of each remaining child.\<close>

definition merge_root_after ::
  "int \<Rightarrow> op list \<Rightarrow> int \<Rightarrow> (error + int list \<times> int list list) option" where
  "merge_root_after t0 os i =
     (case build t0 os of
        None \<Rightarrow> None
      | Some (Inl e) \<Rightarrow> Some (Inl e)
      | Some (Inr tr) \<Rightarrow>
          (case merge (heap tr) (root tr) i of
             Inl e \<Rightarrow> Some (Inl e)
           | Inr h \<Rightarrow>
               Some (Inr (keys (node h (root tr)),
                          map (\<lambda>c. keys (node h c)) (children (node h (root tr)))))))"

text \<open>Whether a run ended with the given exception.\<close>

definition raises :: "(error + 'a) option \<Rightarrow> error \<Rightarrow> bool" where
  "raises r e = (case r of Some (Inl e') \<Rightarrow> e' = e | _ \<Rightarrow> False)"

section \<open>The tree held by the store\<close>

text \<open>The tree that a part of the store holds, read off from a root reference: every
  node with its reference, its keys and, for an internal node, its subtrees.\<close>

datatype atree = ALeaf ref "int list" | ANode ref "int list" "atree list"

text \<open>The reference of the root, all references, the leaves from left to right, the keys
  of the leaves from left to right, and all keys of all nodes.\<close>

fun rt :: "atree \<Rightarrow> ref" where
  "rt (ALeaf a ks) = a"
| "rt (ANode a ks ts) = a"

fun addrs :: "atree \<Rightarrow> ref list" where
  "addrs (ALeaf a ks) = [a]"
| "addrs (ANode a ks ts) = a # concat (map addrs ts)"

fun leaf_refs :: "atree \<Rightarrow> ref list" where
  "leaf_refs (ALeaf a ks) = [a]"
| "leaf_refs (ANode a ks ts) = concat (map leaf_refs ts)"

fun leaf_keys :: "atree \<Rightarrow> int list" where
  "leaf_keys (ALeaf a ks) = ks"
| "leaf_keys (ANode a ks ts) = concat (map leaf_keys ts)"

fun akeys :: "atree \<Rightarrow> int set" where
  "akeys (ALeaf a ks) = set ks"
| "akeys (ANode a ks ts) = set ks \<union> (\<Union>c\<in>set ts. akeys c)"

text \<open>The number of internal nodes, the measure of the descent.\<close>

fun is_leaf :: "atree \<Rightarrow> bool" where
  "is_leaf (ALeaf a ks) = True"
| "is_leaf (ANode a ks ts) = False"

fun tsize :: "atree \<Rightarrow> nat" where
  "tsize (ALeaf a ks) = 0"
| "tsize (ANode a ks ts) = Suc (sum_list (map tsize ts))"

text \<open>The store holds the tree: each node object has the keys of its node and the
  references of its subtrees as children.\<close>

fun repr :: "heap \<Rightarrow> atree \<Rightarrow> bool" where
  "repr h (ALeaf a ks) = (leaf (node h a) \<and> keys (node h a) = ks)"
| "repr h (ANode a ks ts) =
     (\<not> leaf (node h a) \<and> keys (node h a) = ks \<and> children (node h a) = map rt ts \<and>
      (\<forall>c\<in>set ts. repr h c))"

text \<open>The leaf chain: the next field of each leaf is the leaf after it in the list, and
  the next field of the last one is \<open>n\<close>.\<close>

definition first_of :: "ref list \<Rightarrow> ref option \<Rightarrow> ref option" where
  "first_of ls n = (case ls of [] \<Rightarrow> n | l # _ \<Rightarrow> Some l)"

fun linked :: "heap \<Rightarrow> ref list \<Rightarrow> ref option \<Rightarrow> bool" where
  "linked h [] n = True"
| "linked h (l # ls) n = (nxt (node h l) = first_of ls n \<and> linked h ls n)"

text \<open>Bounds on keys; \<open>None\<close> is no bound.\<close>

definition key_above :: "int option \<Rightarrow> int \<Rightarrow> bool" where
  "key_above lo k = (case lo of None \<Rightarrow> True | Some l \<Rightarrow> l < k)"

definition key_upto :: "int \<Rightarrow> int option \<Rightarrow> bool" where
  "key_upto k hi = (case hi of None \<Rightarrow> True | Some u \<Rightarrow> k \<le> u)"

definition key_below :: "int \<Rightarrow> int option \<Rightarrow> bool" where
  "key_below k hi = (case hi of None \<Rightarrow> True | Some u \<Rightarrow> k < u)"

definition within :: "int option \<Rightarrow> atree \<Rightarrow> int option \<Rightarrow> bool" where
  "within lo c hi = (\<forall>k\<in>akeys c. key_above lo k \<and> key_upto k hi)"

text \<open>_split_child keeps \<open>t\<close> keys and \<open>t\<close> children in the left half of an internal
  node. So an internal node either has one child more than keys (upper_sep bound \<open>None\<close>),
  or as many children as keys, its last key then being the separator key_above it in the
  parent (upper_sep bound \<open>Some u\<close>).\<close>

fun shape_ok :: "atree \<Rightarrow> int option \<Rightarrow> bool" where
  "shape_ok (ALeaf a ks) hi = True"
| "shape_ok (ANode a ks ts) None = (length ts = Suc (length ks))"
| "shape_ok (ANode a ks ts) (Some u) = (length ts = length ks \<and> ks \<noteq> [] \<and> last ks = u)"

text \<open>The children of a node against its keys, from left to right with the key before
  as lower_sep bound: the keys of child \<open>i\<close> are key_above key \<open>i - 1\<close> and at most key \<open>i\<close>, the
  keys increase, and every child has the shape its upper_sep bound asks for.\<close>

fun chk :: "int option \<Rightarrow> atree list \<Rightarrow> int list \<Rightarrow> bool" where
  "chk lo [] [] = True"
| "chk lo [c] [] = (within lo c None \<and> shape_ok c None)"
| "chk lo (c # cs) (k # ks) =
     (within lo c (Some k) \<and> shape_ok c (Some k) \<and> key_above lo k \<and> chk (Some k) cs ks)"
| "chk lo cs ks = False"

text \<open>The order invariant of a tree built by inserts.\<close>

fun tree_inv :: "atree \<Rightarrow> bool" where
  "tree_inv (ALeaf a ks) = sorted_wrt (<) ks"
| "tree_inv (ANode a ks ts) = (ts \<noteq> [] \<and> chk None ts ks \<and> (\<forall>c\<in>set ts. tree_inv c))"

text \<open>The bounds of child \<open>j\<close> of a node with keys \<open>ks\<close>.\<close>

definition lower_sep :: "int option \<Rightarrow> int list \<Rightarrow> nat \<Rightarrow> int option" where
  "lower_sep lo ks j = (if j = 0 then lo else Some (ks ! (j - 1)))"

definition upper_sep :: "int list \<Rightarrow> nat \<Rightarrow> int option" where
  "upper_sep ks j = (if j < length ks then Some (ks ! j) else None)"

text \<open>The two halves that _split_child makes of a node, the right one at the new
  reference \<open>z\<close>.\<close>

fun split_left :: "nat \<Rightarrow> atree \<Rightarrow> atree" where
  "split_left n (ALeaf y ks) = ALeaf y (take n ks)"
| "split_left n (ANode y ks ts) = ANode y (take n ks) (take n ts)"

fun split_right :: "nat \<Rightarrow> ref \<Rightarrow> atree \<Rightarrow> atree" where
  "split_right n z (ALeaf y ks) = ALeaf z (drop n ks)"
| "split_right n z (ANode y ks ts) = ANode z (drop n ks) (drop n ts)"

fun node_keys :: "atree \<Rightarrow> int list" where
  "node_keys (ALeaf a ks) = ks"
| "node_keys (ANode a ks ts) = ks"

text \<open>The store holds the tree, without sharing, with the leaves chained up to \<open>e\<close>.\<close>

definition valid :: "heap \<Rightarrow> atree \<Rightarrow> ref option \<Rightarrow> bool" where
  "valid h T e \<longleftrightarrow>
     repr h T \<and> distinct (addrs T) \<and> (\<forall>a\<in>set (addrs T). a < length h) \<and>
     linked h (leaf_refs T) e \<and> tree_inv T"

text \<open>What _insert_non_full(x, k) achieves on the subtree \<open>T\<close> at \<open>x\<close>: a tree \<open>T'\<close> at the
  same reference with the key added, made of the old objects and of new ones, with the
  same first leaf and the same end of the chain; objects outside are untouched.\<close>

definition ins_post ::
  "heap \<Rightarrow> atree \<Rightarrow> ref option \<Rightarrow> int option \<Rightarrow> int \<Rightarrow> heap \<Rightarrow> atree \<Rightarrow> bool" where
  "ins_post h T e hi k h' T' \<longleftrightarrow>
     valid h' T' e \<and> rt T' = rt T \<and> length h \<le> length h' \<and>
     set (addrs T') \<subseteq> set (addrs T) \<union> {length h..<length h'} \<and>
     (\<forall>a<length h. a \<notin> set (addrs T) \<longrightarrow> node h' a = node h a) \<and>
     hd (leaf_refs T') = hd (leaf_refs T) \<and> shape_ok T' hi \<and>
     akeys T' = insert k (akeys T) \<and> set (leaf_keys T') = insert k (set (leaf_keys T))"

text \<open>An index that holds exactly the keys \<open>S\<close>, in a tree with the invariant.\<close>

definition tree_ok :: "BPlusTree \<Rightarrow> int set \<Rightarrow> bool" where
  "tree_ok tr S \<longleftrightarrow>
     (\<exists>T. valid (heap tr) T None \<and> rt T = root tr \<and> shape_ok T None \<and>
          akeys T = S \<and> set (leaf_keys T) = S)"

text \<open>The keys of object \<open>a\<close> after _split_child(x, i).\<close>

definition keys_after_split :: "int \<Rightarrow> heap \<Rightarrow> ref \<Rightarrow> int \<Rightarrow> ref \<Rightarrow> error + int list" where
  "keys_after_split t0 h x i a =
     (case split_child t0 h x i of Inl e \<Rightarrow> Inl e | Inr h' \<Rightarrow> Inr (keys (node h' a)))"

text \<open>The store in which insert(4) calls _split_child(new_root, 0) on an index with
  t = 2 that holds 1, 2, 3: the full leaf at reference 0 and the new root at reference 1.\<close>

definition split_example :: heap where
  "split_example =
     [\<lparr>leaf = True, keys = [1, 2, 3], children = [], nxt = None\<rparr>,
      \<lparr>leaf = False, keys = [], children = [0], nxt = None\<rparr>]"

section \<open>Insertion keeps the tree and the leaf chain\<close>

subsection \<open>Subscripts and the store\<close>

text \<open>Subscripts at positions that are not negative, and what the updates of the store leave
  in each object.\<close>

lemma py_pos_nat [simp]: "py_pos n (int i) = (if i < n then Some i else None)"
  by (simp add: py_pos_def)

lemma py_index_nat [simp]:
  "py_index xs (int i) = (if i < length xs then Inr (xs ! i) else Inl IndexError)"
  by (simp add: py_index_def)

lemma py_index_Suc [simp]:
  "py_index xs (int i + 1) = (if Suc i < length xs then Inr (xs ! Suc i) else Inl IndexError)"
  using py_index_nat [of xs "Suc i"] by (simp add: add.commute)

lemma py_insert_nat [simp]: "py_insert xs (int i) v = take i xs @ v # drop i xs"
  by (simp add: py_insert_def)

lemma py_insert_Suc [simp]: "py_insert xs (int i + 1) v = take (Suc i) xs @ v # drop (Suc i) xs"
  using py_insert_nat [of xs "Suc i" v] by (simp add: add.commute)

lemma py_insert_0 [simp]: "py_insert xs 0 v = v # xs"
  by (simp add: py_insert_def)

lemma py_slice_from_pos: "0 \<le> i \<Longrightarrow> py_slice_from xs i = drop (nat i) xs"
  by (simp add: py_slice_from_def)

lemma py_slice_to_pos: "0 \<le> i \<Longrightarrow> py_slice_to xs i = take (nat i) xs"
  by (simp add: py_slice_to_def)

lemma length_set_keys [simp]: "length (set_keys h a ks) = length h"
  by (simp add: set_keys_def)

lemma length_set_children [simp]: "length (set_children h a cs) = length h"
  by (simp add: set_children_def)

lemma length_set_nxt [simp]: "length (set_nxt h a n) = length h"
  by (simp add: set_nxt_def)

lemma node_set_keys:
  "node (set_keys h a ks) b = (if b = a \<and> a < length h then (node h a)\<lparr>keys := ks\<rparr> else node h b)"
  by (cases "a < length h") (auto simp: set_keys_def node_def nth_list_update list_update_beyond)

lemma node_set_children:
  "node (set_children h a cs) b =
     (if b = a \<and> a < length h then (node h a)\<lparr>children := cs\<rparr> else node h b)"
  by (cases "a < length h") (auto simp: set_children_def node_def nth_list_update list_update_beyond)

lemma node_set_nxt:
  "node (set_nxt h a n) b = (if b = a \<and> a < length h then (node h a)\<lparr>nxt := n\<rparr> else node h b)"
  by (cases "a < length h") (auto simp: set_nxt_def node_def nth_list_update list_update_beyond)

lemma node_append_old: "b < length h \<Longrightarrow> node (h @ [n]) b = node h b"
  by (simp add: node_def nth_append)

lemma node_append_new: "node (h @ [n]) (length h) = n"
  by (simp add: node_def)

lemmas node_simps = node_set_keys node_set_children node_set_nxt node_append_old node_append_new

text \<open>What _split_child does to the three objects it touches.\<close>

lemma split_child_result:
  assumes i: "i < length (children (node h x))" and y: "children (node h x) ! i = y"
    and x: "x < length h" and yl: "y < length h" and xy: "x \<noteq> y"
    and full: "int (length (keys (node h y))) = 2 * t0 - 1" and t0: "1 \<le> t0"
  shows "\<exists>h'. split_child t0 h x (int i) = Inr h' \<and> length h' = Suc (length h) \<and>
     node h' x = (node h x)\<lparr>keys := take i (keys (node h x)) @ keys (node h y) ! nat (t0 - 1)
                                       # drop i (keys (node h x)),
                            children := take (Suc i) (children (node h x)) @ length h
                                       # drop (Suc i) (children (node h x))\<rparr> \<and>
     node h' y = (node h y)\<lparr>keys := take (nat t0) (keys (node h y)),
                            children := (if leaf (node h y) then children (node h y)
                                         else take (nat t0) (children (node h y))),
                            nxt := (if leaf (node h y) then Some (length h) else nxt (node h y))\<rparr> \<and>
     node h' (length h) = \<lparr>leaf = leaf (node h y), keys = drop (nat t0) (keys (node h y)),
                            children = (if leaf (node h y) then []
                                        else drop (nat t0) (children (node h y))),
                            nxt = (if leaf (node h y) then nxt (node h y) else None)\<rparr> \<and>
     (\<forall>b. b < length h \<and> b \<noteq> x \<and> b \<noteq> y \<longrightarrow> node h' b = node h b)"
proof -
  have m: "py_index (keys (node h y)) (t0 - 1) = Inr (keys (node h y) ! nat (t0 - 1))"
    using full t0 by (simp add: py_index_def py_pos_def)
  show ?thesis
    using i y x yl xy t0 m
    by (simp add: split_child_def new_node_def Let_def node_simps py_slice_from_pos
        py_slice_to_pos)
qed

subsection \<open>Bounds and the children of a node\<close>

text \<open>The check of the children against the keys, read at one position and kept by the
  replacement of a child and by the insertion of a key with a new child.\<close>

lemma above_None [simp]: "key_above None k" by (simp add: key_above_def)
lemma above_Some [simp]: "key_above (Some l) k = (l < k)" by (simp add: key_above_def)
lemma upto_None [simp]: "key_upto k None" by (simp add: key_upto_def)
lemma upto_Some [simp]: "key_upto k (Some u) = (k \<le> u)" by (simp add: key_upto_def)
lemma below_None [simp]: "key_below k None" by (simp add: key_below_def)
lemma below_Some [simp]: "key_below k (Some u) = (k < u)" by (simp add: key_below_def)

lemma above_trans: "key_above lo m \<Longrightarrow> m < k \<Longrightarrow> key_above lo k"
  by (cases lo) auto

lemma within_lower_mono: "within (Some m) c hi \<Longrightarrow> key_above lo m \<Longrightarrow> within lo c hi"
  by (auto simp: within_def intro: above_trans)

lemma lower_0 [simp]: "lower_sep lo ks 0 = lo"
  by (simp add: lower_sep_def)

lemma lower_Cons_Suc [simp]: "lower_sep lo (k # ks) (Suc j) = lower_sep (Some k) ks j"
  by (cases j) (simp_all add: lower_sep_def)

lemma upper_Nil [simp]: "upper_sep [] j = None"
  by (simp add: upper_sep_def)

lemma upper_Cons_0 [simp]: "upper_sep (k # ks) 0 = Some k"
  by (simp add: upper_sep_def)

lemma upper_Cons_Suc [simp]: "upper_sep (k # ks) (Suc j) = upper_sep ks j"
  by (simp add: upper_sep_def)

lemma chk_length: "chk lo cs ks \<Longrightarrow> length cs = length ks \<or> length cs = Suc (length ks)"
  by (induction lo cs ks rule: chk.induct) auto

lemma chk_nth:
  "chk lo cs ks \<Longrightarrow> j < length cs \<Longrightarrow>
     within (lower_sep lo ks j) (cs ! j) (upper_sep ks j) \<and> shape_ok (cs ! j) (upper_sep ks j)"
proof (induction lo cs ks arbitrary: j rule: chk.induct)
  case (3 lo c cs k ks)
  then show ?case by (cases j) auto
qed auto

lemma chk_update:
  "chk lo cs ks \<Longrightarrow> j < length cs \<Longrightarrow> within (lower_sep lo ks j) c' (upper_sep ks j) \<Longrightarrow>
     shape_ok c' (upper_sep ks j) \<Longrightarrow> chk lo (cs[j := c']) ks"
proof (induction lo cs ks arbitrary: j rule: chk.induct)
  case (3 lo c cs k ks)
  then show ?case by (cases j) auto
qed auto

lemma chk_split:
  "chk lo cs ks \<Longrightarrow> j < length cs \<Longrightarrow> within (lower_sep lo ks j) y' (Some m) \<Longrightarrow>
     shape_ok y' (Some m) \<Longrightarrow> key_above (lower_sep lo ks j) m \<Longrightarrow> within (Some m) z (upper_sep ks j) \<Longrightarrow>
     shape_ok z (upper_sep ks j) \<Longrightarrow> key_below m (upper_sep ks j) \<Longrightarrow>
     chk lo (take j cs @ y' # z # drop (Suc j) cs) (take j ks @ m # drop j ks)"
proof (induction lo cs ks arbitrary: j rule: chk.induct)
  case (3 lo c cs k ks)
  then show ?case by (cases j) auto
qed auto

lemma chk_weaken: "chk (Some m) cs ks \<Longrightarrow> chk None cs ks"
  by (induction "Some m" cs ks rule: chk.induct) (auto simp: within_def)

lemma chk_take: "chk lo cs ks \<Longrightarrow> n \<le> length ks \<Longrightarrow> chk lo (take n cs) (take n ks)"
proof (induction lo cs ks arbitrary: n rule: chk.induct)
  case (3 lo c cs k ks)
  then show ?case by (cases n) auto
qed auto

lemma chk_drop:
  "chk lo cs ks \<Longrightarrow> n \<le> length ks \<Longrightarrow> 0 < n \<Longrightarrow>
     chk (Some (ks ! (n - 1))) (drop n cs) (drop n ks)"
proof (induction lo cs ks arbitrary: n rule: chk.induct)
  case (3 lo c cs k ks)
  then show ?case by (cases n) (auto simp: drop_Cons' nth_Cons')
qed auto

lemma chk_lower_all:
  "chk lo cs ks \<Longrightarrow> (\<forall>c\<in>set cs. \<forall>k\<in>akeys c. key_above lo k) \<and> (\<forall>k\<in>set ks. key_above lo k)"
proof (induction lo cs ks rule: chk.induct)
  case (3 lo c cs k ks)
  then show ?case by (auto simp: within_def intro: above_trans)
qed (auto simp: within_def)

lemma chk_upper_all:
  "chk lo cs ks \<Longrightarrow> length cs = length ks \<Longrightarrow> ks \<noteq> [] \<Longrightarrow>
     (\<forall>c\<in>set cs. \<forall>k\<in>akeys c. k \<le> last ks) \<and> (\<forall>k\<in>set ks. k \<le> last ks)"
proof (induction lo cs ks rule: chk.induct)
  case (3 lo c cs k ks)
  show ?case
  proof (cases "ks = []")
    case True
    with 3 show ?thesis by (auto simp: within_def)
  next
    case False
    with 3 have IH: "(\<forall>c\<in>set cs. \<forall>k\<in>akeys c. k \<le> last ks) \<and> (\<forall>k\<in>set ks. k \<le> last ks)"
      by auto
    from 3 False have "k < last ks"
      using chk_lower_all [of "Some k" cs ks] by auto
    with 3 IH False show ?thesis by (fastforce simp: within_def)
  qed
qed auto

subsection \<open>The routing loop\<close>

text \<open>The position that the loop of _insert_non_full stops at: the key before is at most
  \<open>k\<close>, all keys from there on are above \<open>k\<close>.\<close>

lemma scan_down_le: "scan_down ks n k \<le> n"
  by (induction n) auto

lemma scan_down_ge: "0 < scan_down ks n k \<Longrightarrow> ks ! (scan_down ks n k - 1) \<le> k"
  by (induction n) (auto split: if_splits)

lemma scan_down_lt: "scan_down ks n k \<le> i \<Longrightarrow> i < n \<Longrightarrow> k < ks ! i"
proof (induction n)
  case (Suc n)
  then show ?case
    by (cases "k < ks ! n") (auto simp: less_Suc_eq)
qed simp

lemma scan_down_lower:
  assumes "key_above lo k" "k \<notin> set ks"
  shows "key_above (lower_sep lo ks (scan_down ks (length ks) k)) k"
proof (cases "scan_down ks (length ks) k = 0")
  case True
  with assms show ?thesis by simp
next
  case False
  let ?j = "scan_down ks (length ks) k"
  from False have "ks ! (?j - 1) \<le> k" using scan_down_ge [of ks "length ks" k] by simp
  moreover have "?j - 1 < length ks"
    using False scan_down_le [of ks "length ks" k] by simp
  then have "ks ! (?j - 1) \<in> set ks" by simp
  with assms have "ks ! (?j - 1) \<noteq> k" by auto
  ultimately show ?thesis using False by (simp add: lower_sep_def)
qed

lemma scan_down_upper:
  "key_below k (upper_sep ks (scan_down ks (length ks) k))"
  using scan_down_lt [of ks "length ks" k "scan_down ks (length ks) k"]
  by (simp add: upper_sep_def)

lemma sorted_insert_at:
  assumes s: "sorted_wrt (<) ks" and k: "k \<notin> set ks"
  shows "sorted_wrt (<) (take (scan_down ks (length ks) k) ks @ k
            # drop (scan_down ks (length ks) k) ks)"
proof -
  let ?j = "scan_down ks (length ks) k"
  have jl: "?j \<le> length ks" by (rule scan_down_le)
  have hi: "\<forall>y\<in>set (drop ?j ks). k < y"
  proof
    fix y assume "y \<in> set (drop ?j ks)"
    then obtain i where "i < length (drop ?j ks)" "y = drop ?j ks ! i"
      by (auto simp: in_set_conv_nth)
    then show "k < y" using scan_down_lt [of ks "length ks" k "?j + i"] by simp
  qed
  have lo: "\<forall>x\<in>set (take ?j ks). x < k"
  proof
    fix x assume "x \<in> set (take ?j ks)"
    then obtain i where i: "i < ?j" "x = ks ! i"
      using jl by (auto simp: in_set_conv_nth)
    then have "0 < ?j" by simp
    then have top: "ks ! (?j - 1) \<le> k" by (rule scan_down_ge)
    have "ks ! i \<le> ks ! (?j - 1)"
    proof (cases "i = ?j - 1")
      case False
      with i jl have "ks ! i < ks ! (?j - 1)"
        by (intro sorted_wrt_nth_less [OF s]) auto
      then show ?thesis by simp
    qed simp
    moreover have "ks ! i \<in> set ks" using i jl by simp
    with k have "ks ! i \<noteq> k" by auto
    ultimately show "x < k" using top i by simp
  qed
  have "sorted_wrt (<) (take ?j ks)" "sorted_wrt (<) (drop ?j ks)"
    using s by (simp_all add: sorted_wrt_take sorted_wrt_drop)
  moreover have "\<forall>x\<in>set (take ?j ks). \<forall>y\<in>set (drop ?j ks). x < y"
    using lo hi by fastforce
  ultimately show ?thesis using lo hi
    by (simp add: sorted_wrt_append)
qed

subsection \<open>The halves of a split node\<close>

text \<open>The two halves hold the keys, the leaves and the objects of the node, and each has the
  invariant within the bounds that the promoted key gives.\<close>

lemma rt_in_addrs: "rt T \<in> set (addrs T)"
  by (cases T) auto

lemma leaf_refs_subset: "set (leaf_refs T) \<subseteq> set (addrs T)"
  by (induction T) auto

lemma leaf_keys_subset: "set (leaf_keys T) \<subseteq> akeys T"
  by (induction T) auto

lemma node_keys_subset: "set (node_keys T) \<subseteq> akeys T"
  by (cases T) auto

lemma leaf_refs_nonempty: "tree_inv T \<Longrightarrow> leaf_refs T \<noteq> []"
proof (induction T)
  case (ANode a ks ts)
  then obtain c cs where "ts = c # cs" by (cases ts) auto
  with ANode show ?case by auto
qed simp

lemma rt_split_left [simp]: "rt (split_left n Y) = rt Y"
  by (cases Y) auto

lemma rt_split_right [simp]: "rt (split_right n z Y) = z"
  by (cases Y) auto

lemma akeys_split: "akeys (split_left n Y) \<union> akeys (split_right n z Y) = akeys Y"
proof (cases Y)
  case (ALeaf y ks)
  then show ?thesis using set_append [of "take n ks" "drop n ks"] by simp
next
  case (ANode y ks ts)
  have "set (take n ks) \<union> set (drop n ks) = set ks"
    using set_append [of "take n ks" "drop n ks"] by simp
  moreover have "set (take n ts) \<union> set (drop n ts) = set ts"
    using set_append [of "take n ts" "drop n ts"] by simp
  ultimately show ?thesis using ANode by auto
qed

lemma leaf_keys_split: "leaf_keys (split_left n Y) @ leaf_keys (split_right n z Y) = leaf_keys Y"
proof (cases Y)
  case (ANode y ks ts)
  have "concat (map leaf_keys (take n ts @ drop n ts)) = concat (map leaf_keys ts)" by simp
  then show ?thesis using ANode by (simp del: append_take_drop_id)
qed simp

lemma addrs_split:
  "set (addrs (split_left n Y)) \<union> set (addrs (split_right n z Y)) = insert z (set (addrs Y))"
proof (cases Y)
  case (ANode y ks ts)
  have "set (take n ts) \<union> set (drop n ts) = set ts"
    using set_append [of "take n ts" "drop n ts"] by simp
  then show ?thesis using ANode by auto
qed auto

lemma distinct_addrs_split:
  assumes "distinct (addrs Y)" "z \<notin> set (addrs Y)"
  shows "distinct (addrs (split_left n Y) @ addrs (split_right n z Y))"
proof (cases Y)
  case (ANode y ks ts)
  have "concat (map addrs (take n ts)) @ concat (map addrs (drop n ts)) = concat (map addrs ts)"
    using append_take_drop_id [of n ts] by (metis concat_append map_append)
  then have d: "distinct (concat (map addrs (take n ts)) @ concat (map addrs (drop n ts)))"
    and s: "set (concat (map addrs (take n ts))) \<union> set (concat (map addrs (drop n ts)))
             = set (concat (map addrs ts))"
    using assms ANode by (auto simp del: set_concat simp flip: set_append)
  from assms ANode have "y \<notin> set (concat (map addrs ts))" "z \<noteq> y"
    "z \<notin> set (concat (map addrs ts))" by auto
  with d s show ?thesis using ANode
    by (auto simp del: set_concat)
qed (use assms in auto)

lemma sorted_take_le:
  assumes "sorted_wrt (<) (ks :: int list)" "0 < n" "n \<le> length ks" "x \<in> set (take n ks)"
  shows "x \<le> ks ! (n - 1)"
proof -
  from assms obtain i where i: "i < n" "x = ks ! i"
    by (auto simp: in_set_conv_nth)
  show ?thesis
  proof (cases "i = n - 1")
    case False
    with i assms have "ks ! i < ks ! (n - 1)"
      using sorted_wrt_nth_less [OF assms(1), of i "n - 1"] by auto
    with i show ?thesis by simp
  qed (use i in simp)
qed

lemma sorted_drop_gt:
  assumes "sorted_wrt (<) (ks :: int list)" "0 < n" "y \<in> set (drop n ks)"
  shows "ks ! (n - 1) < y"
proof -
  from assms obtain i where i: "i < length ks - n" "y = ks ! (n + i)"
    by (auto simp: in_set_conv_nth)
  with assms have "ks ! (n - 1) < ks ! (n + i)"
    using sorted_wrt_nth_less [OF assms(1), of "n - 1" "n + i"] by auto
  with i show ?thesis by simp
qed

lemma split_inv_leaf:
  assumes inv: "tree_inv (ALeaf y ks)" and w: "within lo (ALeaf y ks) hi"
    and len: "length ks = 2 * n - 1" and n: "2 \<le> n"
  shows "tree_inv (split_left n (ALeaf y ks)) \<and> tree_inv (split_right n z (ALeaf y ks)) \<and>
         within lo (split_left n (ALeaf y ks)) (Some (ks ! (n - 1))) \<and>
         within (Some (ks ! (n - 1))) (split_right n z (ALeaf y ks)) hi \<and>
         key_above lo (ks ! (n - 1)) \<and>
         key_below (ks ! (n - 1)) hi"
proof -
  from inv have s: "sorted_wrt (<) ks" by simp
  have nl: "n \<le> length ks" "0 < n" "n - 1 < length ks" using len n by auto
  have mem: "ks ! (n - 1) \<in> set ks" using nl by simp
  have a: "\<forall>x\<in>set (take n ks). x \<le> ks ! (n - 1)"
    using sorted_take_le [OF s nl(2) nl(1)] by blast
  have b: "\<forall>x\<in>set (drop n ks). ks ! (n - 1) < x"
    using sorted_drop_gt [OF s nl(2)] by blast
  have sub: "set (take n ks) \<subseteq> set ks" "set (drop n ks) \<subseteq> set ks"
    by (auto dest: in_set_takeD in_set_dropD)
  have top: "key_below (ks ! (n - 1)) hi"
  proof (cases hi)
    case (Some u)
    have "n < length ks" using len n by simp
    then have "last (drop n ks) = last ks" "drop n ks \<noteq> []" by simp_all
    then have "last ks \<in> set (drop n ks)" by (metis last_in_set)
    then have "ks ! (n - 1) < last ks" using b by blast
    moreover have "ks \<noteq> []" using nl by auto
    then have "last ks \<in> set ks" by simp
    then have "last ks \<le> u" using w Some by (auto simp: within_def)
    ultimately show ?thesis using Some by simp
  qed simp
  show ?thesis
    using s a b sub w mem top
    by (auto simp: within_def sorted_wrt_take sorted_wrt_drop)
qed


lemma last_take_nth: "0 < n \<Longrightarrow> n \<le> length xs \<Longrightarrow> last (take n xs) = xs ! (n - 1)"
  by (cases n) (simp_all add: take_Suc_conv_app_nth)

lemma split_inv_node:
  assumes inv: "tree_inv (ANode y ks ts)" and sh: "shape_ok (ANode y ks ts) hi"
    and w: "within lo (ANode y ks ts) hi"
    and len: "length ks = 2 * n - 1" and n: "2 \<le> n"
  shows "tree_inv (split_left n (ANode y ks ts)) \<and> tree_inv (split_right n z (ANode y ks ts)) \<and>
         within lo (split_left n (ANode y ks ts)) (Some (ks ! (n - 1))) \<and>
         shape_ok (split_left n (ANode y ks ts)) (Some (ks ! (n - 1))) \<and>
         within (Some (ks ! (n - 1))) (split_right n z (ANode y ks ts)) hi \<and>
         shape_ok (split_right n z (ANode y ks ts)) hi \<and>
         key_above lo (ks ! (n - 1)) \<and>
         key_below (ks ! (n - 1)) hi"
proof -
  let ?m = "ks ! (n - 1)"
  from inv have c: "chk None ts ks" and ci: "\<forall>c\<in>set ts. tree_inv c" and ne: "ts \<noteq> []"
    by simp_all
  have nl: "n \<le> length ks" "0 < n" "n < length ks" using len n by auto
  have tl: "length ks \<le> length ts" using chk_length [OF c] by auto
  have lt: "length (take n ts) = length (take n ks)" using nl tl by simp
  have ct: "chk None (take n ts) (take n ks)" using chk_take [OF c nl(1)] .
  have cd: "chk (Some ?m) (drop n ts) (drop n ks)" using chk_drop [OF c nl(1) nl(2)] .
  have lastt: "last (take n ks) = ?m" using nl by (simp add: last_take_nth)
  have tne: "take n ks \<noteq> []" using nl by auto
  have up: "(\<forall>c\<in>set (take n ts). \<forall>k\<in>akeys c. k \<le> ?m) \<and> (\<forall>k\<in>set (take n ks). k \<le> ?m)"
    using chk_upper_all [OF ct lt tne] lastt by simp
  have lw: "(\<forall>c\<in>set (drop n ts). \<forall>k\<in>akeys c. ?m < k) \<and> (\<forall>k\<in>set (drop n ks). ?m < k)"
    using chk_lower_all [OF cd] by simp
  have sub: "set (take n ks) \<subseteq> set ks" "set (drop n ks) \<subseteq> set ks"
    "set (take n ts) \<subseteq> set ts" "set (drop n ts) \<subseteq> set ts"
    by (auto dest: in_set_takeD in_set_dropD)
  have mem: "?m \<in> set ks" using nl by simp
  have g1: "tree_inv (split_left n (ANode y ks ts))"
    using ct ci sub ne nl by auto
  have g2: "tree_inv (split_right n z (ANode y ks ts))"
    using chk_weaken [OF cd] ci sub tl nl by auto
  have g3: "within lo (split_left n (ANode y ks ts)) (Some ?m)"
    using up w sub unfolding within_def by (simp, blast)
  have g4: "shape_ok (split_left n (ANode y ks ts)) (Some ?m)"
    using lt tne lastt by simp
  have g5: "within (Some ?m) (split_right n z (ANode y ks ts)) hi"
    using lw w sub unfolding within_def by (simp, blast)
  have g6: "shape_ok (split_right n z (ANode y ks ts)) hi"
    using sh nl by (cases hi) auto
  have g7: "key_above lo ?m" using w mem by (auto simp: within_def)
  have g8: "key_below ?m hi"
  proof (cases hi)
    case (Some u)
    have "last (drop n ks) = last ks" "drop n ks \<noteq> []" using nl by simp_all
    then have "last ks \<in> set (drop n ks)" by (metis last_in_set)
    then have "?m < last ks" using lw by blast
    with sh Some show ?thesis by simp
  qed simp
  from g1 g2 g3 g4 g5 g6 g7 g8 show ?thesis by blast
qed

lemma split_inv:
  assumes "tree_inv Y" "shape_ok Y hi" "within lo Y hi"
    and "length (node_keys Y) = 2 * n - 1" "2 \<le> n"
  shows "tree_inv (split_left n Y) \<and> tree_inv (split_right n z Y) \<and>
         within lo (split_left n Y) (Some (node_keys Y ! (n - 1))) \<and>
         shape_ok (split_left n Y) (Some (node_keys Y ! (n - 1))) \<and>
         within (Some (node_keys Y ! (n - 1))) (split_right n z Y) hi \<and>
         shape_ok (split_right n z Y) hi \<and>
         key_above lo (node_keys Y ! (n - 1)) \<and>
         key_below (node_keys Y ! (n - 1)) hi"
proof (cases Y)
  case (ALeaf y ks)
  with assms split_inv_leaf [of y ks lo hi n z] show ?thesis by simp
next
  case (ANode y ks ts)
  with assms split_inv_node [of y ks ts hi lo n z] show ?thesis by simp
qed

subsection \<open>Frames\<close>

text \<open>The tree and the chain depend on their own objects only.\<close>

lemma first_of_Nil [simp]: "first_of [] n = n"
  by (simp add: first_of_def)

lemma first_of_Cons [simp]: "first_of (l # ls) n = Some l"
  by (simp add: first_of_def)

lemma first_of_append: "first_of (A @ B) n = first_of A (first_of B n)"
  by (cases A) simp_all

lemma first_of_nonempty: "ls \<noteq> [] \<Longrightarrow> first_of ls n = Some (hd ls)"
  by (cases ls) simp_all

lemma linked_append: "linked h (A @ B) n = (linked h A (first_of B n) \<and> linked h B n)"
  by (induction A) (auto simp: first_of_append)

lemma linked_frame: "\<forall>l\<in>set ls. node h' l = node h l \<Longrightarrow> linked h' ls n = linked h ls n"
  by (induction ls) auto

lemma repr_frame: "\<forall>a\<in>set (addrs T). node h' a = node h a \<Longrightarrow> repr h' T = repr h T"
  by (induction T) auto

lemma repr_keys: "repr h T \<Longrightarrow> keys (node h (rt T)) = node_keys T"
  by (cases T) auto

lemma repr_leaf: "repr h T \<Longrightarrow> leaf (node h (rt T)) = is_leaf T"
  by (cases T) auto

lemma leaf_refs_split_node:
  "leaf_refs (split_left n (ANode y ks ts)) @ leaf_refs (split_right n z (ANode y ks ts))
     = leaf_refs (ANode y ks ts)"
proof -
  have "concat (map leaf_refs (take n ts @ drop n ts)) = concat (map leaf_refs ts)" by simp
  then show ?thesis by (simp del: append_take_drop_id)
qed

lemma repr_split_left:
  assumes r: "repr h Y" and d: "distinct (addrs Y)"
    and ny: "node h1 (rt Y) = (node h (rt Y))\<lparr>keys := take n (keys (node h (rt Y))),
                children := (if leaf (node h (rt Y)) then children (node h (rt Y))
                             else take n (children (node h (rt Y)))),
                nxt := nx\<rparr>"
    and fr: "\<forall>a\<in>set (addrs Y). a \<noteq> rt Y \<longrightarrow> node h1 a = node h a"
  shows "repr h1 (split_left n Y)"
proof (cases Y)
  case (ALeaf y ks)
  with r ny show ?thesis by simp
next
  case (ANode y ks ts)
  have "repr h1 g" if g: "g \<in> set (take n ts)" for g
  proof -
    from g have gs: "g \<in> set ts" by (rule in_set_takeD)
    with d ANode have "y \<notin> set (addrs g)" by auto
    with fr ANode gs have "\<forall>a\<in>set (addrs g). node h1 a = node h a" by auto
    then have "repr h1 g = repr h g" by (rule repr_frame)
    with r ANode gs show ?thesis by simp
  qed
  with r ny ANode show ?thesis by (simp add: take_map)
qed

lemma repr_split_right:
  assumes r: "repr h Y" and d: "distinct (addrs Y)" and z: "z \<notin> set (addrs Y)"
    and nz: "node h1 z = \<lparr>leaf = leaf (node h (rt Y)), keys = drop n (keys (node h (rt Y))),
                children = (if leaf (node h (rt Y)) then []
                            else drop n (children (node h (rt Y)))),
                nxt = nx\<rparr>"
    and fr: "\<forall>a\<in>set (addrs Y). a \<noteq> rt Y \<longrightarrow> node h1 a = node h a"
  shows "repr h1 (split_right n z Y)"
proof (cases Y)
  case (ALeaf y ks)
  with r nz show ?thesis by simp
next
  case (ANode y ks ts)
  have "repr h1 g" if g: "g \<in> set (drop n ts)" for g
  proof -
    from g have gs: "g \<in> set ts" by (rule in_set_dropD)
    with d ANode have "y \<notin> set (addrs g)" by auto
    with fr ANode gs have "\<forall>a\<in>set (addrs g). node h1 a = node h a" by auto
    then have "repr h1 g = repr h g" by (rule repr_frame)
    with r ANode gs show ?thesis by simp
  qed
  with r nz ANode show ?thesis by (simp add: drop_map)
qed

subsection \<open>The split of a child\<close>

text \<open>_split_child(x, i) on a store that holds a tree at \<open>x\<close>: the store then holds the
  tree with child \<open>i\<close> replaced by its two halves.\<close>

lemma linked_split:
  assumes lk: "linked h (LA @ leaf_refs Y @ LB) n"
    and fa: "\<forall>l\<in>set LA \<union> set LB. node h1 l = node h l"
    and r: "repr h Y" and d: "distinct (addrs Y)"
    and ny: "nxt (node h1 (rt Y)) = (if is_leaf Y then Some z else nxt (node h (rt Y)))"
    and nz: "nxt (node h1 z) = (if is_leaf Y then nxt (node h (rt Y)) else None)"
    and fr: "\<forall>a\<in>set (addrs Y). a \<noteq> rt Y \<longrightarrow> node h1 a = node h a"
  shows "linked h1 (LA @ leaf_refs (split_left m Y) @ leaf_refs (split_right m z Y) @ LB) n"
proof (cases Y)
  case (ALeaf y ks)
  from lk ALeaf have a: "linked h LA (Some y)" and b: "nxt (node h y) = first_of LB n"
    and c: "linked h LB n"
    by (simp_all add: linked_append)
  from fa have "linked h1 LA (Some y) = linked h LA (Some y)"
    using linked_frame [of LA h1 h "Some y"] by simp
  moreover from fa have "linked h1 LB n = linked h LB n"
    using linked_frame [of LB h1 h n] by simp
  ultimately have "linked h1 LA (Some y)" "linked h1 LB n" using a c by simp_all
  with a b c ny nz ALeaf show ?thesis
    by (simp add: linked_append)
next
  case (ANode y ks ts)
  have "node h1 l = node h l" if l: "l \<in> set (leaf_refs Y)" for l
  proof -
    from l ANode obtain c where c: "c \<in> set ts" "l \<in> set (leaf_refs c)" by auto
    then have la: "l \<in> set (addrs c)" using leaf_refs_subset by blast
    from d ANode c have "y \<notin> set (addrs c)" by auto
    with la have "l \<noteq> y" by auto
    moreover from la c ANode have "l \<in> set (addrs Y)" by auto
    ultimately show ?thesis using fr ANode by auto
  qed
  then have "\<forall>l\<in>set (leaf_refs Y). node h1 l = node h l" by blast
  with fa have "\<forall>l\<in>set (LA @ leaf_refs Y @ LB). node h1 l = node h l" by auto
  then have "linked h1 (LA @ leaf_refs Y @ LB) n = linked h (LA @ leaf_refs Y @ LB) n"
    by (rule linked_frame)
  with lk have l1: "linked h1 (LA @ leaf_refs Y @ LB) n" by simp
  have eq: "leaf_refs (split_left m Y) @ leaf_refs (split_right m z Y) = leaf_refs Y"
    using ANode leaf_refs_split_node [of m y ks ts z] by simp
  from l1 show ?thesis
    unfolding eq [symmetric] by (simp only: append_assoc)
qed

lemma split_child_sim:
  assumes t0: "2 \<le> t0"
    and r: "repr h (ANode x ks (A @ Y # B))"
    and d: "distinct (addrs (ANode x ks (A @ Y # B)))"
    and bd: "\<forall>a\<in>set (addrs (ANode x ks (A @ Y # B))). a < length h"
    and lk: "linked h (leaf_refs (ANode x ks (A @ Y # B))) n"
    and full: "int (length (node_keys Y)) = 2 * t0 - 1"
  shows "\<exists>h1. split_child t0 h x (int (length A)) = Inr h1 \<and> length h1 = Suc (length h) \<and>
      repr h1 (ANode x (take (length A) ks @ node_keys Y ! (nat t0 - 1) # drop (length A) ks)
                 (A @ split_left (nat t0) Y # split_right (nat t0) (length h) Y # B)) \<and>
      linked h1 (leaf_refs (ANode x (take (length A) ks @ node_keys Y ! (nat t0 - 1)
                                       # drop (length A) ks)
                 (A @ split_left (nat t0) Y # split_right (nat t0) (length h) Y # B))) n \<and>
      (\<forall>a<length h. a \<noteq> x \<and> a \<noteq> rt Y \<longrightarrow> node h1 a = node h a)"
proof -
  let ?y = "rt Y" and ?i = "length A" and ?z = "length h" and ?n = "nat t0"
  from r have rx: "\<not> leaf (node h x)" "keys (node h x) = ks"
    "children (node h x) = map rt (A @ Y # B)" and rY: "repr h Y"
    and rAB: "\<forall>c\<in>set A \<union> set B. repr h c"
    by auto
  have yin: "?y \<in> set (addrs Y)" by (rule rt_in_addrs)
  from d have dY: "distinct (addrs Y)" and xY: "x \<notin> set (addrs Y)"
    and xAB: "\<forall>c\<in>set A \<union> set B. x \<notin> set (addrs c)"
    and disj: "\<forall>c\<in>set A \<union> set B. set (addrs c) \<inter> set (addrs Y) = {}"
    by auto
  from bd have bx: "x < ?z" and bY: "\<forall>a\<in>set (addrs Y). a < ?z"
    and bAB: "\<forall>c\<in>set A \<union> set B. \<forall>a\<in>set (addrs c). a < ?z"
    by auto
  have i1: "?i < length (children (node h x))" using rx by simp
  have i2: "children (node h x) ! ?i = ?y" using rx by (simp add: nth_append)
  have xy: "x \<noteq> ?y" using yin xY by auto
  have yl: "?y < ?z" using yin bY by auto
  have ky: "keys (node h ?y) = node_keys Y" using rY by (rule repr_keys)
  have ly: "leaf (node h ?y) = is_leaf Y" using rY by (rule repr_leaf)
  have full': "int (length (keys (node h ?y))) = 2 * t0 - 1" using full ky by simp
  have t1: "1 \<le> t0" using t0 by simp
  from split_child_result [OF i1 i2 bx yl xy full' t1]
  obtain h1 where s: "split_child t0 h x (int ?i) = Inr h1" and l1: "length h1 = Suc ?z"
    and nx: "node h1 x = (node h x)\<lparr>keys := take ?i (keys (node h x))
                 @ keys (node h ?y) ! nat (t0 - 1) # drop ?i (keys (node h x)),
               children := take (Suc ?i) (children (node h x)) @ ?z
                 # drop (Suc ?i) (children (node h x))\<rparr>"
    and ny: "node h1 ?y = (node h ?y)\<lparr>keys := take ?n (keys (node h ?y)),
               children := (if leaf (node h ?y) then children (node h ?y)
                            else take ?n (children (node h ?y))),
               nxt := (if leaf (node h ?y) then Some ?z else nxt (node h ?y))\<rparr>"
    and nz: "node h1 ?z = \<lparr>leaf = leaf (node h ?y), keys = drop ?n (keys (node h ?y)),
               children = (if leaf (node h ?y) then [] else drop ?n (children (node h ?y))),
               nxt = (if leaf (node h ?y) then nxt (node h ?y) else None)\<rparr>"
    and fr: "\<forall>b. b < ?z \<and> b \<noteq> x \<and> b \<noteq> ?y \<longrightarrow> node h1 b = node h b"
    by blast
  have frY: "\<forall>a\<in>set (addrs Y). a \<noteq> ?y \<longrightarrow> node h1 a = node h a"
    using fr bY xY by auto
  have frAB: "\<forall>c\<in>set A \<union> set B. \<forall>a\<in>set (addrs c). node h1 a = node h a"
    using fr bAB xAB disj yin by blast
  have zY: "?z \<notin> set (addrs Y)" using bY by auto
  have rl: "repr h1 (split_left ?n Y)"
    using repr_split_left [OF rY dY ny frY] .
  have rr: "repr h1 (split_right ?n ?z Y)"
    using repr_split_right [OF rY dY zY nz frY] .
  have rAB1: "\<forall>c\<in>set A \<union> set B. repr h1 c"
  proof
    fix c assume c: "c \<in> set A \<union> set B"
    with frAB have "repr h1 c = repr h c" by (intro repr_frame) auto
    with rAB c show "repr h1 c" by simp
  qed
  have nn: "nat (t0 - 1) = ?n - 1" by simp
  have ch: "take (Suc ?i) (map rt (A @ Y # B)) @ ?z # drop (Suc ?i) (map rt (A @ Y # B))
      = map rt (A @ split_left ?n Y # split_right ?n ?z Y # B)"
    by simp
  have rep: "repr h1 (ANode x (take ?i ks @ node_keys Y ! (?n - 1) # drop ?i ks)
                 (A @ split_left ?n Y # split_right ?n ?z Y # B))"
    using rx nx ky nn ch rl rr rAB1 by auto
  let ?LA = "concat (map leaf_refs A)" and ?LB = "concat (map leaf_refs B)"
  from lk have lk': "linked h (?LA @ leaf_refs Y @ ?LB) n" by simp
  have fa: "\<forall>l\<in>set ?LA \<union> set ?LB. node h1 l = node h l"
    using frAB leaf_refs_subset by fastforce
  have nyn: "nxt (node h1 ?y) = (if is_leaf Y then Some ?z else nxt (node h ?y))"
    using ny ly by simp
  have nzn: "nxt (node h1 ?z) = (if is_leaf Y then nxt (node h ?y) else None)"
    using nz ly by simp
  have "linked h1 (?LA @ leaf_refs (split_left ?n Y) @ leaf_refs (split_right ?n ?z Y) @ ?LB) n"
    using linked_split [OF lk' fa rY dY nyn nzn frY] .
  then have lnk: "linked h1 (leaf_refs (ANode x (take ?i ks @ node_keys Y ! (?n - 1)
                  # drop ?i ks) (A @ split_left ?n Y # split_right ?n ?z Y # B))) n"
    by simp
  from fr have fr': "\<forall>a<?z. a \<noteq> x \<and> a \<noteq> ?y \<longrightarrow> node h1 a = node h a" by blast
  from s l1 rep lnk fr' show ?thesis by blast
qed

lemma hd_leaf_refs_split_left:
  assumes "tree_inv Y" "0 < n"
  shows "leaf_refs (split_left n Y) \<noteq> [] \<and> hd (leaf_refs (split_left n Y)) = hd (leaf_refs Y)"
proof (cases Y)
  case (ANode y ks ts)
  with assms obtain c cs where ts: "ts = c # cs" by (cases ts) auto
  with assms ANode have "leaf_refs c \<noteq> []" using leaf_refs_nonempty [of c] by simp
  moreover from assms obtain n' where "n = Suc n'" by (cases n) auto
  ultimately show ?thesis using ANode ts by simp
qed simp

lemma distinct_replace_mid:
  assumes "distinct (x # CA @ M @ CB)" "distinct S" "set S = insert z (set M)"
    "z \<notin> set (x # CA @ M @ CB)"
  shows "distinct (x # CA @ S @ CB)"
proof -
  from assms have "x \<notin> set S" "set CA \<inter> set S = {}" "set S \<inter> set CB = {}"
    by auto
  with assms show ?thesis by auto
qed

lemma split_pure:
  assumes inv: "tree_inv (ANode x ks (A @ Y # B))"
    and sh: "shape_ok (ANode x ks (A @ Y # B)) hi"
    and full: "length (node_keys Y) = 2 * n - 1" and n: "2 \<le> n"
    and d: "distinct (addrs (ANode x ks (A @ Y # B)))"
    and z: "z \<notin> set (addrs (ANode x ks (A @ Y # B)))"
  defines "T1 \<equiv> ANode x (take (length A) ks @ node_keys Y ! (n - 1) # drop (length A) ks)
                     (A @ split_left n Y # split_right n z Y # B)"
  shows "tree_inv T1" and "shape_ok T1 hi" and "akeys T1 = akeys (ANode x ks (A @ Y # B))"
    and "leaf_keys T1 = leaf_keys (ANode x ks (A @ Y # B))"
    and "distinct (addrs T1)"
    and "set (addrs T1) = insert z (set (addrs (ANode x ks (A @ Y # B))))"
    and "hd (leaf_refs T1) = hd (leaf_refs (ANode x ks (A @ Y # B)))"
proof -
  let ?j = "length A" and ?m = "node_keys Y ! (n - 1)"
  let ?cs = "A @ Y # B"
  from inv have c: "chk None ?cs ks" and ci: "\<forall>c\<in>set ?cs. tree_inv c" by simp_all
  have j: "?j < length ?cs" by simp
  have nth: "?cs ! ?j = Y" by simp
  from chk_nth [OF c j] have wY: "within (lower_sep None ks ?j) Y (upper_sep ks ?j)"
    and sY: "shape_ok Y (upper_sep ks ?j)" by (simp_all add: nth)
  from ci have iY: "tree_inv Y" by simp
  note si = split_inv [OF iY sY wY full n, of z]
  have "chk None (take ?j ?cs @ split_left n Y # split_right n z Y # drop (Suc ?j) ?cs)
          (take ?j ks @ ?m # drop ?j ks)"
    using si by (intro chk_split [OF c j]) simp_all
  then have c1: "chk None (A @ split_left n Y # split_right n z Y # B)
                    (take ?j ks @ ?m # drop ?j ks)" by simp
  show "tree_inv T1" using c1 ci si by (auto simp: T1_def)
  show "shape_ok T1 hi"
  proof (cases hi)
    case None
    with sh show ?thesis by (auto simp: T1_def)
  next
    case (Some u)
    with sh have "?j < length ks" by auto
    then have "drop ?j ks \<noteq> []" by simp
    with sh Some show ?thesis by (auto simp: T1_def)
  qed
  have mem: "?m \<in> akeys Y"
    using node_keys_subset [of Y] full n by (auto simp: subset_iff)
  have "set (take ?j ks) \<union> set (drop ?j ks) = set ks"
    using set_append [of "take ?j ks" "drop ?j ks"] by simp
  then have sk: "set (take ?j ks @ ?m # drop ?j ks) = insert ?m (set ks)" by auto
  show "akeys T1 = akeys (ANode x ks ?cs)"
    using sk mem akeys_split [of n Y z] by (auto simp: T1_def)
  show "leaf_keys T1 = leaf_keys (ANode x ks ?cs)"
    using leaf_keys_split [of n Y z] by (simp add: T1_def)
  have as: "set (addrs (split_left n Y)) \<union> set (addrs (split_right n z Y))
              = insert z (set (addrs Y))" by (rule addrs_split)
  from d z have "distinct (addrs Y)" "z \<notin> set (addrs Y)" by auto
  then have ds: "distinct (addrs (split_left n Y) @ addrs (split_right n z Y))"
    by (rule distinct_addrs_split)
  show "set (addrs T1) = insert z (set (addrs (ANode x ks ?cs)))"
    using as by (auto simp: T1_def)
  have p1: "distinct (x # concat (map addrs A) @ addrs Y @ concat (map addrs B))"
    using d by simp
  have p3: "set (addrs (split_left n Y) @ addrs (split_right n z Y)) = insert z (set (addrs Y))"
    using as by simp
  have p4: "z \<notin> set (x # concat (map addrs A) @ addrs Y @ concat (map addrs B))"
    using z by simp
  have "distinct (x # concat (map addrs A)
            @ (addrs (split_left n Y) @ addrs (split_right n z Y)) @ concat (map addrs B))"
    using distinct_replace_mid [OF p1 ds p3 p4] .
  then show "distinct (addrs T1)" by (simp add: T1_def)
  show "hd (leaf_refs T1) = hd (leaf_refs (ANode x ks ?cs))"
  proof -
    define LA where "LA = concat (map leaf_refs A)"
    define LB where "LB = concat (map leaf_refs B)"
    have e1: "leaf_refs T1 = LA @ leaf_refs (split_left n Y) @ leaf_refs (split_right n z Y) @ LB"
      by (simp add: T1_def LA_def LB_def)
    have e2: "leaf_refs (ANode x ks ?cs) = LA @ leaf_refs Y @ LB"
      by (simp add: LA_def LB_def)
    have ne: "leaf_refs Y \<noteq> []" using iY by (rule leaf_refs_nonempty)
    have nl: "leaf_refs (split_left n Y) \<noteq> []"
      "hd (leaf_refs (split_left n Y)) = hd (leaf_refs Y)"
      using hd_leaf_refs_split_left [OF iY, of n] n by simp_all
    show ?thesis unfolding e1 e2 using ne nl by (cases LA) simp_all
  qed
qed

subsection \<open>The descent\<close>

text \<open>From the result of the call on a child to the result for the node; then
  _insert_non_full by induction on the number of internal nodes.\<close>

lemma hd_mid:
  "L \<noteq> [] \<Longrightarrow> L' \<noteq> [] \<Longrightarrow> hd L' = hd L \<Longrightarrow> hd (LA @ L' @ LB) = hd (LA @ L @ LB)"
  by (cases LA) simp_all

lemma valid_child:
  assumes v: "valid h (ANode x ks (A @ C # B)) e"
  shows "valid h C (first_of (concat (map leaf_refs B)) e)"
    and "shape_ok C (upper_sep ks (length A))"
    and "within (lower_sep None ks (length A)) C (upper_sep ks (length A))"
proof -
  from v have c: "chk None (A @ C # B) ks"
    and lk: "linked h (concat (map leaf_refs A) @ leaf_refs C @ concat (map leaf_refs B)) e"
    by (simp_all add: valid_def)
  from lk have "linked h (leaf_refs C) (first_of (concat (map leaf_refs B)) e)"
    by (simp add: linked_append)
  with v show "valid h C (first_of (concat (map leaf_refs B)) e)"
    by (simp add: valid_def)
  from chk_nth [OF c, of "length A"]
  show "shape_ok C (upper_sep ks (length A))"
    and "within (lower_sep None ks (length A)) C (upper_sep ks (length A))" by simp_all
qed

lemma reassemble:
  assumes v: "valid h (ANode x ks (A @ C # B)) e"
    and sh: "shape_ok (ANode x ks (A @ C # B)) hi"
    and lo: "key_above (lower_sep None ks (length A)) k" and up: "key_below k (upper_sep ks (length A))"
    and p: "ins_post h C (first_of (concat (map leaf_refs B)) e) (upper_sep ks (length A)) k h' C'"
  shows "ins_post h (ANode x ks (A @ C # B)) e hi k h' (ANode x ks (A @ C' # B))"
proof -
  let ?T = "ANode x ks (A @ C # B)" and ?T' = "ANode x ks (A @ C' # B)"
  let ?LA = "concat (map leaf_refs A)" and ?LB = "concat (map leaf_refs B)"
  let ?j = "length A"
  from v have r: "repr h ?T" and d: "distinct (addrs ?T)"
    and bd: "\<forall>a\<in>set (addrs ?T). a < length h"
    and lk: "linked h (?LA @ leaf_refs C @ ?LB) e" and inv: "tree_inv ?T"
    by (simp_all add: valid_def)
  from p have v': "valid h' C' (first_of ?LB e)" and rt: "rt C' = rt C"
    and len: "length h \<le> length h'"
    and ad: "set (addrs C') \<subseteq> set (addrs C) \<union> {length h..<length h'}"
    and fr: "\<forall>a<length h. a \<notin> set (addrs C) \<longrightarrow> node h' a = node h a"
    and hd: "hd (leaf_refs C') = hd (leaf_refs C)" and sC': "shape_ok C' (upper_sep ks ?j)"
    and ak: "akeys C' = insert k (akeys C)"
    and lks: "set (leaf_keys C') = insert k (set (leaf_keys C))"
    by (simp_all add: ins_post_def)
  from v' have r': "repr h' C'" and d': "distinct (addrs C')"
    and bd': "\<forall>a\<in>set (addrs C'). a < length h'"
    and lk': "linked h' (leaf_refs C') (first_of ?LB e)" and inv': "tree_inv C'"
    by (simp_all add: valid_def)
  from d have xC: "x \<notin> set (addrs C)"
    and xAB: "\<forall>c\<in>set A \<union> set B. x \<notin> set (addrs c)"
    and disj: "\<forall>c\<in>set A \<union> set B. set (addrs c) \<inter> set (addrs C) = {}"
    by auto
  from bd have bx: "x < length h"
    and bAB: "\<forall>c\<in>set A \<union> set B. \<forall>a\<in>set (addrs c). a < length h"
    by auto
  have nx: "node h' x = node h x" using fr bx xC by simp
  have frAB: "\<forall>c\<in>set A \<union> set B. \<forall>a\<in>set (addrs c). node h' a = node h a"
    using fr bAB disj by blast
  have rAB: "\<forall>c\<in>set A \<union> set B. repr h' c"
  proof
    fix c assume c: "c \<in> set A \<union> set B"
    with frAB have "repr h' c = repr h c" by (intro repr_frame) auto
    with r c show "repr h' c" by auto
  qed
  have g_repr: "repr h' ?T'" using r nx rt r' rAB by auto
  have xC': "x \<notin> set (addrs C')" using ad xC bx by auto
  have disj': "\<forall>c\<in>set A \<union> set B. set (addrs c) \<inter> set (addrs C') = {}"
    using ad disj bAB by fastforce
  have p1: "distinct (x # concat (map addrs A) @ addrs C @ concat (map addrs B))"
    using d by simp
  have g_dist: "distinct (addrs ?T')"
    using d d' xC' disj' by auto
  have sub': "set (addrs ?T') \<subseteq> set (addrs ?T) \<union> set (addrs C')" by auto
  have g_bd: "\<forall>a\<in>set (addrs ?T'). a < length h'"
  proof
    fix a assume "a \<in> set (addrs ?T')"
    with sub' have "a \<in> set (addrs ?T) \<or> a \<in> set (addrs C')" by blast
    then show "a < length h'"
    proof
      assume "a \<in> set (addrs ?T)"
      with bd have "a < length h" by blast
      with len show ?thesis by simp
    next
      assume "a \<in> set (addrs C')"
      with bd' show ?thesis by blast
    qed
  qed
  have neC: "leaf_refs C \<noteq> []" using inv leaf_refs_nonempty [of C] by simp
  have neC': "leaf_refs C' \<noteq> []" using inv' by (rule leaf_refs_nonempty)
  have fo: "first_of (leaf_refs C' @ ?LB) e = first_of (leaf_refs C @ ?LB) e"
    using neC neC' hd by (simp add: first_of_append first_of_nonempty)
  have fl: "\<forall>l\<in>set ?LA \<union> set ?LB. node h' l = node h l"
    using frAB leaf_refs_subset by fastforce
  have "linked h' ?LA (first_of (leaf_refs C @ ?LB) e) = linked h ?LA (first_of (leaf_refs C @ ?LB) e)"
    using fl by (intro linked_frame) simp
  moreover have "linked h' ?LB e = linked h ?LB e"
    using fl by (intro linked_frame) simp
  ultimately have g_link: "linked h' (?LA @ leaf_refs C' @ ?LB) e"
    using lk lk' fo by (simp add: linked_append)
  from inv have c: "chk None (A @ C # B) ks" and ci: "\<forall>c\<in>set (A @ C # B). tree_inv c"
    by simp_all
  from chk_nth [OF c, of ?j] have wC: "within (lower_sep None ks ?j) C (upper_sep ks ?j)" by simp
  have "key_upto k (upper_sep ks ?j)" using up by (cases "upper_sep ks ?j") simp_all
  with wC lo ak have wC': "within (lower_sep None ks ?j) C' (upper_sep ks ?j)"
    by (simp add: within_def)
  have "chk None ((A @ C # B)[?j := C']) ks"
    using wC' sC' by (intro chk_update [OF c]) simp_all
  then have c': "chk None (A @ C' # B) ks" by simp
  have g_inv: "tree_inv ?T'" using c' ci inv' by auto
  have g_valid: "valid h' ?T' e"
    using g_repr g_dist g_bd g_link g_inv by (simp add: valid_def)
  have "set (addrs C) \<subseteq> set (addrs ?T)" by auto
  with ad sub' have g_ad: "set (addrs ?T') \<subseteq> set (addrs ?T) \<union> {length h..<length h'}"
    by blast
  have g_fr: "\<forall>a<length h. a \<notin> set (addrs ?T) \<longrightarrow> node h' a = node h a"
    using fr by simp
  have g_hd: "hd (leaf_refs ?T') = hd (leaf_refs ?T)"
  proof -
    have "hd (?LA @ leaf_refs C' @ ?LB) = hd (?LA @ leaf_refs C @ ?LB)"
      using neC neC' hd by (rule hd_mid)
    then show ?thesis by simp
  qed
  have g_sh: "shape_ok ?T' hi" using sh by (cases hi) simp_all
  have g_ak: "akeys ?T' = insert k (akeys ?T)" using ak by auto
  have g_lk: "set (leaf_keys ?T') = insert k (set (leaf_keys ?T))" using lks by auto
  show ?thesis
    unfolding ins_post_def
    using g_valid len g_ad g_fr g_hd g_sh g_ak g_lk by simp
qed

lemma nth_insert_at: "j \<le> length ks \<Longrightarrow> (take j ks @ m # drop j ks) ! j = m"
  by (simp add: nth_append)

lemma upper_insert: "j \<le> length ks \<Longrightarrow> upper_sep (take j ks @ m # drop j ks) j = Some m"
  by (simp add: upper_sep_def nth_append)

lemma upper_insert_Suc:
  "j \<le> length ks \<Longrightarrow> upper_sep (take j ks @ m # drop j ks) (Suc j) = upper_sep ks j"
  by (auto simp: upper_sep_def nth_append)

lemma lower_insert: "j \<le> length ks \<Longrightarrow> lower_sep lo (take j ks @ m # drop j ks) j = lower_sep lo ks j"
  by (auto simp: lower_sep_def nth_append)

lemma lower_insert_Suc:
  "j \<le> length ks \<Longrightarrow> lower_sep lo (take j ks @ m # drop j ks) (Suc j) = Some m"
  by (simp add: lower_sep_def nth_append)

lemma tsize_split_left: "tsize (split_left n Y) \<le> tsize Y"
proof (cases Y)
  case (ANode y ks ts)
  have "sum_list (map tsize (take n ts)) + sum_list (map tsize (drop n ts))
          = sum_list (map tsize ts)"
    by (metis append_take_drop_id map_append sum_list_append)
  with ANode show ?thesis by simp
qed simp

lemma tsize_split_right: "tsize (split_right n z Y) \<le> tsize Y"
proof (cases Y)
  case (ANode y ks ts)
  have "sum_list (map tsize (take n ts)) + sum_list (map tsize (drop n ts))
          = sum_list (map tsize ts)"
    by (metis append_take_drop_id map_append sum_list_append)
  with ANode show ?thesis by simp
qed simp

lemma post_after_split:
  assumes p: "ins_post h1 T1 e hi k h' T'" and l1: "length h1 = Suc (length h)"
    and rt: "rt T1 = rt T" and ad: "set (addrs T1) = insert (length h) (set (addrs T))"
    and fr: "\<forall>a<length h. a \<notin> set (addrs T) \<longrightarrow> node h1 a = node h a"
    and hd: "hd (leaf_refs T1) = hd (leaf_refs T)"
    and ak: "akeys T1 = akeys T" and lk: "leaf_keys T1 = leaf_keys T"
  shows "ins_post h T e hi k h' T'"
proof -
  from p have v: "valid h' T' e" and r: "rt T' = rt T1" and len: "length h1 \<le> length h'"
    and a1: "set (addrs T') \<subseteq> set (addrs T1) \<union> {length h1..<length h'}"
    and f1: "\<forall>a<length h1. a \<notin> set (addrs T1) \<longrightarrow> node h' a = node h1 a"
    and h1: "hd (leaf_refs T') = hd (leaf_refs T1)" and s: "shape_ok T' hi"
    and k1: "akeys T' = insert k (akeys T1)"
    and k2: "set (leaf_keys T') = insert k (set (leaf_keys T1))"
    by (simp_all add: ins_post_def)
  have g1: "set (addrs T') \<subseteq> set (addrs T) \<union> {length h..<length h'}"
  proof
    fix a assume "a \<in> set (addrs T')"
    with a1 have "a \<in> set (addrs T1) \<or> a \<in> {length h1..<length h'}" by blast
    with ad l1 len show "a \<in> set (addrs T) \<union> {length h..<length h'}" by auto
  qed
  have g2: "\<forall>a<length h. a \<notin> set (addrs T) \<longrightarrow> node h' a = node h a"
  proof (intro allI impI)
    fix a assume a: "a < length h" "a \<notin> set (addrs T)"
    with ad have "a \<notin> set (addrs T1)" by auto
    with a l1 f1 have "node h' a = node h1 a" by simp
    with a fr show "node h' a = node h a" by simp
  qed
  show ?thesis
    unfolding ins_post_def
    using v r rt len l1 g1 g2 h1 hd s k1 k2 ak lk by simp
qed

lemma insert_leaf_sim:
  assumes v: "valid h (ALeaf a ks) e" and k: "k \<notin> set ks"
  shows "\<exists>h' T'. insert_non_full t0 h a k = Some (Inr h') \<and>
                  ins_post h (ALeaf a ks) e hi k h' T'"
proof -
  let ?j = "scan_down ks (length ks) k"
  let ?ks = "take ?j ks @ k # drop ?j ks"
  let ?h = "set_keys h a ?ks"
  from v have lf: "leaf (node h a)" and kk: "keys (node h a) = ks" and al: "a < length h"
    and nx: "nxt (node h a) = e" and s: "sorted_wrt (<) ks"
    by (simp_all add: valid_def)
  have run: "insert_non_full t0 h a k = Some (Inr ?h)"
    by (subst insert_non_full.simps) (simp add: lf kk Let_def)
  have na: "node ?h a = (node h a)\<lparr>keys := ?ks\<rparr>" using al by (simp add: node_set_keys)
  have nb: "\<forall>b. b \<noteq> a \<longrightarrow> node ?h b = node h b" by (simp add: node_set_keys)
  have st: "sorted_wrt (<) ?ks" using s k by (rule sorted_insert_at)
  have "set (take ?j ks) \<union> set (drop ?j ks) = set ks"
    using set_append [of "take ?j ks" "drop ?j ks"] by simp
  then have sk: "set ?ks = insert k (set ks)" by auto
  have "valid ?h (ALeaf a ?ks) e"
    using na lf nx al st by (simp add: valid_def)
  then have "ins_post h (ALeaf a ks) e hi k ?h (ALeaf a ?ks)"
    using nb sk by (simp add: ins_post_def)
  with run show ?thesis by blast
qed

lemma route_in_range:
  assumes c: "chk None ts ks" and sh: "shape_ok (ANode x ks ts) hi" and up: "key_below k hi"
  shows "scan_down ks (length ks) k < length ts"
proof (cases hi)
  case None
  with sh have "length ts = Suc (length ks)" by simp
  with scan_down_le [of ks "length ks" k] show ?thesis by simp
next
  case (Some u)
  with sh have l: "length ts = length ks" "ks \<noteq> []" "last ks = u" by simp_all
  have "scan_down ks (length ks) k \<noteq> length ks"
  proof
    assume eq: "scan_down ks (length ks) k = length ks"
    with l have "0 < scan_down ks (length ks) k" by simp
    from scan_down_ge [OF this] eq have "ks ! (length ks - 1) \<le> k" by simp
    with l have "u \<le> k" by (simp add: last_conv_nth)
    with up Some show False by simp
  qed
  with scan_down_le [of ks "length ks" k] l show ?thesis by simp
qed

lemma insert_non_full_sim:
  assumes t0: "2 \<le> t0"
  shows "valid h T e \<Longrightarrow> shape_ok T hi \<Longrightarrow> k \<notin> akeys T \<Longrightarrow> key_below k hi \<Longrightarrow>
         \<exists>h' T'. insert_non_full t0 h (rt T) k = Some (Inr h') \<and> ins_post h T e hi k h' T'"
proof (induction "tsize T" arbitrary: T h e hi rule: less_induct)
  case less
  note v = less.prems(1) and sh = less.prems(2) and kT = less.prems(3) and kh = less.prems(4)
  show ?case
  proof (cases T)
    case (ALeaf a ks)
    with v kT insert_leaf_sim [of h a ks e k t0 hi] show ?thesis by simp
  next
    case (ANode x ks ts)
    define j where "j = scan_down ks (length ks) k"
    from v ANode have c: "chk None ts ks" by (simp add: valid_def)
    have jle: "j \<le> length ks" unfolding j_def by (rule scan_down_le)
    have jlt: "j < length ts"
      unfolding j_def using c sh kh ANode by (intro route_in_range) auto
    define A where "A = take j ts"
    define C where "C = ts ! j"
    define B where "B = drop (Suc j) ts"
    have ts: "ts = A @ C # B" unfolding A_def B_def C_def using jlt
      by (rule id_take_nth_drop)
    have lA: "length A = j" unfolding A_def using jlt by simp
    let ?LB = "concat (map leaf_refs B)"
    have vT: "valid h (ANode x ks (A @ C # B)) e" using v ANode ts by simp
    have shT: "shape_ok (ANode x ks (A @ C # B)) hi" using sh ANode ts by simp
    note vc = valid_child [OF vT]
    from vT have rx: "\<not> leaf (node h x)" "keys (node h x) = ks"
      "children (node h x) = map rt (A @ C # B)" and rC: "repr h C"
      by (simp_all add: valid_def)
    have kks: "k \<notin> set ks" using kT ANode by simp
    have lo: "key_above (lower_sep None ks j) k" unfolding j_def using kks by (intro scan_down_lower) simp_all
    have up: "key_below k (upper_sep ks j)" unfolding j_def by (rule scan_down_upper)
    have kC: "k \<notin> akeys C" using kT ANode ts by simp
    have szC: "tsize C < tsize T" using ANode ts by simp
    have idx: "j < length (children (node h x))" "children (node h x) ! j = rt C"
      using rx lA by (simp_all add: nth_append)
    have keysC: "keys (node h (rt C)) = node_keys C" using rC by (rule repr_keys)
    show ?thesis
    proof (cases "int (length (node_keys C)) = 2 * t0 - 1")
      case False
      have run: "insert_non_full t0 h x k = insert_non_full t0 h (rt C) k"
        by (subst insert_non_full.simps)
          (simp add: rx(1) rx(2) idx keysC False Let_def flip: j_def)
      from less.hyps [OF szC vc(1) vc(2) [unfolded lA] kC up]
      obtain h' C' where r: "insert_non_full t0 h (rt C) k = Some (Inr h')"
        and p: "ins_post h C (first_of ?LB e) (upper_sep ks j) k h' C'" by blast
      have "ins_post h (ANode x ks (A @ C # B)) e hi k h' (ANode x ks (A @ C' # B))"
        using vT shT lo up p by (intro reassemble) (simp_all add: lA)
      with run r ANode ts show ?thesis by auto
    next
      case True
      define n where "n = nat t0"
      define z where "z = length h"
      define m where "m = node_keys C ! (n - 1)"
      define ks1 where "ks1 = take j ks @ m # drop j ks"
      define Y' where "Y' = split_left n C"
      define Z where "Z = split_right n z C"
      define T1 where "T1 = ANode x ks1 (A @ Y' # Z # B)"
      have n2: "2 \<le> n" using t0 by (simp add: n_def)
      have full: "length (node_keys C) = 2 * n - 1" using True t0 by (simp add: n_def)
      from vT have r0: "repr h (ANode x ks (A @ C # B))"
        and d0: "distinct (addrs (ANode x ks (A @ C # B)))"
        and b0: "\<forall>a\<in>set (addrs (ANode x ks (A @ C # B))). a < length h"
        and l0: "linked h (leaf_refs (ANode x ks (A @ C # B))) e"
        and i0: "tree_inv (ANode x ks (A @ C # B))"
        by (simp_all add: valid_def)
      from split_child_sim [OF t0 r0 d0 b0 l0 True]
      obtain h1 where sp: "split_child t0 h x (int j) = Inr h1"
        and l1: "length h1 = Suc (length h)" and r1: "repr h1 T1"
        and lk1: "linked h1 (leaf_refs T1) e"
        and f1: "\<forall>a<length h. a \<noteq> x \<and> a \<noteq> rt C \<longrightarrow> node h1 a = node h a"
        unfolding T1_def ks1_def m_def Y'_def Z_def n_def z_def lA by blast
      have zf: "z \<notin> set (addrs (ANode x ks (A @ C # B)))" using b0 by (auto simp: z_def)
      note pu = split_pure [OF i0 shT full n2 d0 zf, folded m_def, unfolded lA,
          folded ks1_def Y'_def Z_def, folded T1_def]
      have v1: "valid h1 T1 e"
      proof -
        have "\<forall>a\<in>set (addrs T1). a < length h1"
        proof
          fix a assume "a \<in> set (addrs T1)"
          with pu(6) have "a = z \<or> a \<in> set (addrs (ANode x ks (A @ C # B)))" by blast
          then show "a < length h1"
          proof
            assume "a = z"
            with l1 show ?thesis by (simp add: z_def)
          next
            assume "a \<in> set (addrs (ANode x ks (A @ C # B)))"
            with b0 have "a < length h" by blast
            with l1 show ?thesis by simp
          qed
        qed
        with r1 pu(5) lk1 pu(1) show ?thesis by (simp add: valid_def)
      qed
      have mC: "m \<in> akeys C"
        using node_keys_subset [of C] full n2 by (auto simp: m_def subset_iff)
      then have km: "k \<noteq> m" using kC by auto
      have k1: "keys (node h1 x) = ks1" "children (node h1 x) = map rt (A @ Y' # Z # B)"
        using r1 by (simp_all add: T1_def)
      have sidx: "j < length (keys (node h1 x))" "keys (node h1 x) ! j = m"
        using jle by (simp_all add: k1 ks1_def nth_append)
      have fr0: "\<forall>a<length h. a \<notin> set (addrs T) \<longrightarrow> node h1 a = node h a"
      proof (intro allI impI)
        fix a assume a: "a < length h" "a \<notin> set (addrs T)"
        have "x \<in> set (addrs T)" "rt C \<in> set (addrs T)"
          using ANode ts rt_in_addrs [of C] by auto
        with a have "a \<noteq> x \<and> a \<noteq> rt C" by auto
        with a f1 show "node h1 a = node h a" by simp
      qed
      have TT: "T = ANode x ks (A @ C # B)" using ANode ts by simp
      have rt1: "rt T1 = rt T" by (simp add: TT T1_def)
      note ad1 = pu(6) [folded TT, unfolded z_def] and hd1 = pu(7) [folded TT]
        and ak1 = pu(3) [folded TT] and lks1 = pu(4) [folded TT]
      have lift: "ins_post h T e hi k h' T'" if "ins_post h1 T1 e hi k h' T'" for h' T'
        using post_after_split [OF that l1 rt1 ad1 fr0 hd1 ak1 lks1] .
      show ?thesis
      proof (cases "k > m")
        case True
        have cidx: "Suc j < length (children (node h1 x))" "children (node h1 x) ! Suc j = z"
          using lA by (simp_all add: k1 nth_append Z_def)
        have run: "insert_non_full t0 h x k = insert_non_full t0 h1 z k"
          by (subst insert_non_full.simps)
            (simp add: rx(1) rx(2) idx keysC \<open>int (length (node_keys C)) = 2 * t0 - 1\<close>
              sp sidx True cidx Let_def flip: j_def)
        have T1': "T1 = ANode x ks1 ((A @ [Y']) @ Z # B)" by (simp add: T1_def)
        have lA': "length (A @ [Y']) = Suc j" using lA by simp
        note vz = valid_child [OF v1 [unfolded T1'], unfolded lA']
        have up1: "upper_sep ks1 (Suc j) = upper_sep ks j"
          unfolding ks1_def using jle by (rule upper_insert_Suc)
        have lo1: "lower_sep None ks1 (Suc j) = Some m"
          unfolding ks1_def using jle by (rule lower_insert_Suc)
        have szZ: "tsize Z < tsize T"
          using tsize_split_right [of n z C] szC by (simp add: Z_def)
        have kZ: "k \<notin> akeys Z" using kC akeys_split [of n C z] by (auto simp: Z_def)
        have rz: "rt Z = z" by (simp add: Z_def)
        from less.hyps [OF szZ vz(1) vz(2) kZ] up up1
        obtain h' Z' where r: "insert_non_full t0 h1 z k = Some (Inr h')"
          and p: "ins_post h1 Z (first_of ?LB e) (upper_sep ks1 (Suc j)) k h' Z'"
          by (auto simp: rz)
        have sh1: "shape_ok (ANode x ks1 ((A @ [Y']) @ Z # B)) hi"
          using pu(2) by (simp add: T1_def)
        have "ins_post h1 (ANode x ks1 ((A @ [Y']) @ Z # B)) e hi k h'
                (ANode x ks1 ((A @ [Y']) @ Z' # B))"
          using v1 [unfolded T1'] sh1 p True up up1 lo1
          by (intro reassemble) (simp_all add: lA)
        then have "ins_post h T e hi k h' (ANode x ks1 ((A @ [Y']) @ Z' # B))"
          using lift by (simp add: T1_def)
        with run r ANode show ?thesis by auto
      next
        case False
        with km have klt: "k < m" by simp
        have cidx: "j < length (children (node h1 x))" "children (node h1 x) ! j = rt C"
          using lA by (simp_all add: k1 nth_append Y'_def)
        have run: "insert_non_full t0 h x k = insert_non_full t0 h1 (rt C) k"
          by (subst insert_non_full.simps)
            (simp add: rx(1) rx(2) idx keysC \<open>int (length (node_keys C)) = 2 * t0 - 1\<close>
              sp sidx False cidx Let_def flip: j_def)
        note vy = valid_child [OF v1 [unfolded T1_def], unfolded lA]
        have up1: "upper_sep ks1 j = Some m"
          unfolding ks1_def using jle by (rule upper_insert)
        have lo1: "lower_sep None ks1 j = lower_sep None ks j"
          unfolding ks1_def using jle by (rule lower_insert)
        have szY: "tsize Y' < tsize T"
          using tsize_split_left [of n C] szC by (simp add: Y'_def)
        have kY: "k \<notin> akeys Y'" using kC akeys_split [of n C z] by (auto simp: Y'_def)
        have ry: "rt Y' = rt C" by (simp add: Y'_def)
        from less.hyps [OF szY vy(1) vy(2) kY] klt up1
        obtain h' Y'' where r: "insert_non_full t0 h1 (rt C) k = Some (Inr h')"
          and p: "ins_post h1 Y' (first_of (concat (map leaf_refs (Z # B))) e)
                    (upper_sep ks1 j) k h' Y''"
          by (auto simp: ry)
        have sh1: "shape_ok (ANode x ks1 (A @ Y' # Z # B)) hi"
          using pu(2) by (simp add: T1_def)
        have "ins_post h1 (ANode x ks1 (A @ Y' # Z # B)) e hi k h'
                (ANode x ks1 (A @ Y'' # Z # B))"
          using v1 [unfolded T1_def] sh1 p klt up1 lo1 lo
          by (intro reassemble) (simp_all add: lA)
        then have "ins_post h T e hi k h' (ANode x ks1 (A @ Y'' # Z # B))"
          using lift by (simp add: T1_def)
        with run r ANode show ?thesis by auto
      qed
    qed
  qed
qed

subsection \<open>insert and runs of inserts\<close>

text \<open>A new root over a full root, its split, and the descent from there.\<close>

lemma valid_frame:
  assumes v: "valid h T e" and fr: "\<forall>a\<in>set (addrs T). node h' a = node h a"
    and len: "length h \<le> length h'"
  shows "valid h' T e"
proof -
  have "repr h' T = repr h T" using fr by (rule repr_frame)
  moreover have "\<forall>l\<in>set (leaf_refs T). node h' l = node h l"
    using fr leaf_refs_subset by blast
  then have "linked h' (leaf_refs T) e = linked h (leaf_refs T) e" by (rule linked_frame)
  moreover have "\<forall>a\<in>set (addrs T). a < length h'"
  proof
    fix a assume "a \<in> set (addrs T)"
    with v have "a < length h" by (simp add: valid_def)
    with len show "a < length h'" by simp
  qed
  ultimately show ?thesis using v by (simp add: valid_def)
qed

lemma within_None [simp]: "within None T None"
  by (simp add: within_def)

lemma split_valid:
  assumes t0: "2 \<le> t0" and v: "valid h (ANode x ks (A @ Y # B)) e"
    and sh: "shape_ok (ANode x ks (A @ Y # B)) hi"
    and full: "int (length (node_keys Y)) = 2 * t0 - 1"
  defines "T1 \<equiv> ANode x (take (length A) ks @ node_keys Y ! (nat t0 - 1) # drop (length A) ks)
                     (A @ split_left (nat t0) Y # split_right (nat t0) (length h) Y # B)"
  shows "\<exists>h1. split_child t0 h x (int (length A)) = Inr h1 \<and> length h1 = Suc (length h) \<and>
           valid h1 T1 e \<and> shape_ok T1 hi \<and> akeys T1 = akeys (ANode x ks (A @ Y # B)) \<and>
           leaf_keys T1 = leaf_keys (ANode x ks (A @ Y # B)) \<and>
           hd (leaf_refs T1) = hd (leaf_refs (ANode x ks (A @ Y # B))) \<and>
           set (addrs T1) = insert (length h) (set (addrs (ANode x ks (A @ Y # B)))) \<and>
           (\<forall>a<length h. a \<noteq> x \<and> a \<noteq> rt Y \<longrightarrow> node h1 a = node h a)"
proof -
  let ?T = "ANode x ks (A @ Y # B)"
  from v have r0: "repr h ?T" and d0: "distinct (addrs ?T)"
    and b0: "\<forall>a\<in>set (addrs ?T). a < length h"
    and l0: "linked h (leaf_refs ?T) e" and i0: "tree_inv ?T"
    by (simp_all add: valid_def)
  have n2: "2 \<le> nat t0" using t0 by simp
  have fulln: "length (node_keys Y) = 2 * nat t0 - 1" using full t0 by simp
  from split_child_sim [OF t0 r0 d0 b0 l0 full]
  obtain h1 where sp: "split_child t0 h x (int (length A)) = Inr h1"
    and l1: "length h1 = Suc (length h)" and r1: "repr h1 T1"
    and lk1: "linked h1 (leaf_refs T1) e"
    and f1: "\<forall>a<length h. a \<noteq> x \<and> a \<noteq> rt Y \<longrightarrow> node h1 a = node h a"
    unfolding T1_def by blast
  have zf: "length h \<notin> set (addrs ?T)"
  proof
    assume "length h \<in> set (addrs ?T)"
    with b0 have "length h < length h" by blast
    then show False by simp
  qed
  note pu = split_pure [OF i0 sh fulln n2 d0 zf, folded T1_def]
  have b1: "\<forall>a\<in>set (addrs T1). a < length h1"
  proof
    fix a assume "a \<in> set (addrs T1)"
    with pu(6) have "a = length h \<or> a \<in> set (addrs ?T)" by blast
    then show "a < length h1"
    proof
      assume "a = length h"
      with l1 show ?thesis by simp
    next
      assume "a \<in> set (addrs ?T)"
      with b0 have "a < length h" by blast
      with l1 show ?thesis by simp
    qed
  qed
  have v1: "valid h1 T1 e"
    unfolding valid_def using r1 pu(5) b1 lk1 pu(1) by blast
  from sp l1 v1 pu(2) pu(3) pu(4) pu(7) pu(6) f1 show ?thesis by blast
qed

lemma grow_root_valid:
  assumes v: "valid h T None" and sh: "shape_ok T None"
  defines "h2 \<equiv> set_children (h @ [\<lparr>leaf = False, keys = [], children = [], nxt = None\<rparr>])
                    (length h) [rt T]"
  shows "valid h2 (ANode (length h) [] ([] @ T # [])) None" and "length h2 = Suc (length h)"
proof -
  let ?r = "length h"
  show l2: "length h2 = Suc (length h)" by (simp add: h2_def)
  have nr: "node h2 ?r = \<lparr>leaf = False, keys = [], children = [rt T], nxt = None\<rparr>"
    by (simp add: h2_def node_simps)
  have fr: "\<forall>a<length h. node h2 a = node h a"
    by (simp add: h2_def node_simps)
  from v have b: "\<forall>a\<in>set (addrs T). a < length h" by (simp add: valid_def)
  have fT: "\<forall>a\<in>set (addrs T). node h2 a = node h a" using fr b by blast
  have "length h \<le> length h2" using l2 by simp
  with v fT have vT: "valid h2 T None" by (rule valid_frame)
  have rn: "?r \<notin> set (addrs T)"
  proof
    assume "?r \<in> set (addrs T)"
    with b have "?r < length h" by blast
    then show False by simp
  qed
  from vT have vT': "repr h2 T" "distinct (addrs T)" "\<forall>a\<in>set (addrs T). a < length h2"
    "linked h2 (leaf_refs T) None" "tree_inv T"
    by (simp_all add: valid_def)
  have rl: "?r < length h2" using l2 by simp
  show "valid h2 (ANode ?r [] ([] @ T # [])) None"
    unfolding valid_def using vT' nr rn rl sh by simp
qed

lemma insert_key_sim:
  assumes t0: "2 \<le> t tr" and ok: "tree_ok tr S" and k: "k \<notin> S"
  shows "\<exists>tr'. insert_key tr k = Some (Inr tr') \<and> tree_ok tr' (insert k S) \<and> t tr' = t tr"
proof -
  let ?h = "heap tr"
  from ok obtain T where v: "valid ?h T None" and rt: "rt T = root tr"
    and sh: "shape_ok T None" and ak: "akeys T = S" and lk: "set (leaf_keys T) = S"
    unfolding tree_ok_def by blast
  from v have rT: "repr ?h T" by (simp add: valid_def)
  have kr: "keys (node ?h (root tr)) = node_keys T" using repr_keys [OF rT] rt by simp
  have kT: "k \<notin> akeys T" using k ak by simp
  show ?thesis
  proof (cases "int (length (node_keys T)) = 2 * t tr - 1")
    case False
    from insert_non_full_sim [OF t0 v sh kT]
    obtain h' T' where r: "insert_non_full (t tr) ?h (rt T) k = Some (Inr h')"
      and p: "ins_post ?h T None None k h' T'" by auto
    have run: "insert_key tr k = Some (Inr (tr\<lparr>heap := h'\<rparr>))"
      using False r rt by (simp add: insert_key_def kr)
    from p have p': "valid h' T' None" "rt T' = rt T" "shape_ok T' None"
      "akeys T' = insert k (akeys T)" "set (leaf_keys T') = insert k (set (leaf_keys T))"
      by (simp_all add: ins_post_def)
    have "tree_ok (tr\<lparr>heap := h'\<rparr>) (insert k S)"
      unfolding tree_ok_def using p' rt ak lk
      by (intro exI [of _ T']) simp
    with run show ?thesis by simp
  next
    case True
    define r where "r = length ?h"
    define h2 where "h2 = set_children (?h @ [\<lparr>leaf = False, keys = [], children = [], nxt = None\<rparr>])
                    (length ?h) [rt T]"
    define T1 where "T1 = ANode r (take (length ([]::atree list)) [] @ node_keys T ! (nat (t tr) - 1)
                       # drop (length ([]::atree list)) [])
                     ([] @ split_left (nat (t tr)) T # split_right (nat (t tr)) (length h2) T # [])"
    note g = grow_root_valid [OF v sh, folded h2_def r_def]
    have sh0: "shape_ok (ANode r [] ([] @ T # [])) None" by simp
    from split_valid [OF t0 g(1) sh0 True, folded T1_def]
    obtain h3 where sp: "split_child (t tr) h2 r (int (length ([]::atree list))) = Inr h3"
      and v3: "valid h3 T1 None" and s3: "shape_ok T1 None"
      and a3: "akeys T1 = akeys (ANode r [] ([] @ T # []))"
      and k3: "leaf_keys T1 = leaf_keys (ANode r [] ([] @ T # []))"
      by blast
    have sp0: "split_child (t tr) h2 r 0 = Inr h3" using sp by simp
    have k1: "k \<notin> akeys T1" using a3 kT by simp
    from insert_non_full_sim [OF t0 v3 s3 k1]
    obtain h' T' where rr: "insert_non_full (t tr) h3 (rt T1) k = Some (Inr h')"
      and p: "ins_post h3 T1 None None k h' T'" by auto
    have rt1: "rt T1 = r" by (simp add: T1_def)
    have nn: "new_node ?h False = (r, ?h @ [\<lparr>leaf = False, keys = [], children = [], nxt = None\<rparr>])"
      by (simp add: new_node_def r_def)
    have ch: "children (node (?h @ [\<lparr>leaf = False, keys = [], children = [], nxt = None\<rparr>]) r) = []"
      by (simp add: r_def node_simps)
    have h2': "set_children (?h @ [\<lparr>leaf = False, keys = [], children = [], nxt = None\<rparr>]) r
                 [root tr] = h2"
      by (simp add: h2_def r_def rt)
    have run: "insert_key tr k = Some (Inr (tr\<lparr>heap := h', root := r\<rparr>))"
      using True rr rt1 by (simp add: insert_key_def kr nn ch h2' sp0)
    from p have p': "valid h' T' None" "rt T' = rt T1" "shape_ok T' None"
      "akeys T' = insert k (akeys T1)" "set (leaf_keys T') = insert k (set (leaf_keys T1))"
      by (simp_all add: ins_post_def)
    have a3': "akeys T1 = S" using a3 ak by simp
    have k3': "set (leaf_keys T1) = S" using k3 lk by simp
    have "tree_ok (tr\<lparr>heap := h', root := r\<rparr>) (insert k S)"
      unfolding tree_ok_def using p' rt1 a3' k3'
      by (intro exI [of _ T']) simp
    with run show ?thesis by simp
  qed
qed

lemma run_inserts:
  "2 \<le> t tr \<Longrightarrow> tree_ok tr S \<Longrightarrow> distinct ks \<Longrightarrow> set ks \<inter> S = {} \<Longrightarrow>
     \<exists>tr'. run tr (map Insert ks) = Some (Inr tr') \<and> tree_ok tr' (S \<union> set ks) \<and> t tr' = t tr"
proof (induction ks arbitrary: tr S)
  case Nil
  then show ?case by simp
next
  case (Cons k ks)
  from Cons.prems have kS: "k \<notin> S" by simp
  from insert_key_sim [OF Cons.prems(1) Cons.prems(2) kS]
  obtain tr1 where i: "insert_key tr k = Some (Inr tr1)" and ok1: "tree_ok tr1 (insert k S)"
    and t1: "t tr1 = t tr" by blast
  from Cons.prems have d: "distinct ks" and dis: "set ks \<inter> insert k S = {}" by auto
  from Cons.prems(1) t1 have t2: "2 \<le> t tr1" by simp
  from Cons.IH [OF t2 ok1 d dis]
  obtain tr' where r: "run tr1 (map Insert ks) = Some (Inr tr')"
    and ok': "tree_ok tr' (insert k S \<union> set ks)" and t': "t tr' = t tr1" by blast
  have "insert k S \<union> set ks = S \<union> set (k # ks)" by auto
  with ok' have "tree_ok tr' (S \<union> set (k # ks))" by simp
  with i r t' t1 show ?case by simp
qed

lemma init_ok: "\<exists>tr. BPlusTree_init t0 = Inr tr \<and> tree_ok tr {} \<and> t tr = t0"
proof -
  let ?tr = "\<lparr>heap = [\<lparr>leaf = True, keys = [], children = [], nxt = None\<rparr>], root = 0, t = t0\<rparr>"
  have "BPlusTree_init t0 = Inr ?tr" by (simp add: BPlusTree_init_def new_node_def)
  moreover have "valid (heap ?tr) (ALeaf 0 []) None"
    by (simp add: valid_def node_def)
  then have "tree_ok ?tr {}"
    unfolding tree_ok_def by (intro exI [of _ "ALeaf 0 []"]) simp
  ultimately show ?thesis by simp
qed

lemma build_inserts:
  assumes "2 \<le> t0" "distinct ks"
  shows "\<exists>tr. build t0 (map Insert ks) = Some (Inr tr) \<and> tree_ok tr (set ks)"
proof -
  from init_ok [of t0] obtain tr0 where i: "BPlusTree_init t0 = Inr tr0"
    and ok: "tree_ok tr0 {}" and t: "t tr0 = t0" by blast
  from assms t have "2 \<le> t tr0" by simp
  from run_inserts [OF this ok assms(2)]
  obtain tr where "run tr0 (map Insert ks) = Some (Inr tr)" "tree_ok tr ({} \<union> set ks)"
    by auto
  with i show ?thesis by (auto simp: build_def)
qed

subsection \<open>range_query on an index built by inserts\<close>

text \<open>The keys of the leaves are in strictly ascending order; _find_leaf reaches the first
  leaf, and the loop follows the chain to its end.\<close>

lemma chk_sorted:
  "chk lo cs ks \<Longrightarrow> \<forall>c\<in>set cs. sorted_wrt (<) (leaf_keys c) \<Longrightarrow>
     sorted_wrt (<) (concat (map leaf_keys cs))"
proof (induction lo cs ks rule: chk.induct)
  case (3 lo c cs k ks)
  have a: "\<forall>x\<in>set (leaf_keys c). x \<le> k"
    using 3(2) leaf_keys_subset [of c] by (auto simp: within_def)
  have b: "\<forall>y\<in>set (concat (map leaf_keys cs)). k < y"
  proof
    fix y assume "y \<in> set (concat (map leaf_keys cs))"
    then obtain c' where c': "c' \<in> set cs" "y \<in> set (leaf_keys c')" by auto
    then have "y \<in> akeys c'" using leaf_keys_subset by blast
    with c' chk_lower_all [of "Some k" cs ks] 3(2) show "k < y" by auto
  qed
  have "\<forall>x\<in>set (leaf_keys c). \<forall>y\<in>set (concat (map leaf_keys cs)). x < y"
    using a b by fastforce
  moreover have "sorted_wrt (<) (concat (map leaf_keys cs))" using 3 by simp
  moreover have "sorted_wrt (<) (leaf_keys c)" using 3(3) by simp
  ultimately show ?case by (simp add: sorted_wrt_append)
qed simp_all

lemma tree_inv_sorted: "tree_inv T \<Longrightarrow> sorted_wrt (<) (leaf_keys T)"
proof (induction T)
  case (ANode a ks ts)
  then have "\<forall>c\<in>set ts. sorted_wrt (<) (leaf_keys c)" by simp
  with ANode.prems chk_sorted [of None ts ks] show ?case by simp
qed simp

lemma scan_leaf_all:
  "\<forall>k\<in>set ks. s \<le> k \<and> k \<le> e \<Longrightarrow> scan_leaf ks s e acc = (acc @ ks, False)"
  by (induction ks arbitrary: acc) auto

lemma range_loop_chain:
  "linked h ls n \<Longrightarrow> \<forall>l\<in>set ls. \<forall>k\<in>set (keys (node h l)). s \<le> k \<and> k \<le> e \<Longrightarrow>
     range_loop h s e (first_of ls n) acc
       = range_loop h s e n (acc @ concat (map (\<lambda>l. keys (node h l)) ls))"
proof (induction ls arbitrary: acc)
  case Nil
  then show ?case by simp
next
  case (Cons l ls)
  from Cons.prems have nx: "nxt (node h l) = first_of ls n" and lk: "linked h ls n" by simp_all
  from Cons.prems have "\<forall>k\<in>set (keys (node h l)). s \<le> k \<and> k \<le> e" by simp
  then have sc: "scan_leaf (keys (node h l)) s e acc = (acc @ keys (node h l), False)"
    by (rule scan_leaf_all)
  have "range_loop h s e (Some l) acc
          = range_loop h s e (first_of ls n) (acc @ keys (node h l))"
    by (subst range_loop.simps) (simp add: sc nx)
  also have "\<dots> = range_loop h s e n
                (acc @ keys (node h l) @ concat (map (\<lambda>l. keys (node h l)) ls))"
    using Cons.IH [OF lk, of "acc @ keys (node h l)"] Cons.prems(2) by simp
  finally show ?case by simp
qed

lemma concat_leaf_keys:
  "\<forall>c\<in>set ts. concat (map f (leaf_refs c)) = leaf_keys c \<Longrightarrow>
     concat (map f (concat (map leaf_refs ts))) = concat (map leaf_keys ts)"
  by (induction ts) auto

lemma leaf_keys_repr:
  "repr h T \<Longrightarrow> concat (map (\<lambda>l. keys (node h l)) (leaf_refs T)) = leaf_keys T"
proof (induction T)
  case (ANode a ks ts)
  then have "\<forall>c\<in>set ts. concat (map (\<lambda>l. keys (node h l)) (leaf_refs c)) = leaf_keys c"
    by simp
  then show ?case using concat_leaf_keys [of ts "\<lambda>l. keys (node h l)"] by simp
qed simp

lemma py_index_0 [simp]: "py_index (x # xs) 0 = Inr x"
  by (simp add: py_index_def py_pos_def)

lemma scan_up_least: "\<forall>k\<in>set ks. s \<le> k \<Longrightarrow> scan_up ks s = 0"
  by (cases ks) auto

lemma find_leaf_first:
  "repr h T \<Longrightarrow> tree_inv T \<Longrightarrow> \<forall>k\<in>akeys T. s \<le> k \<Longrightarrow>
     find_leaf h (rt T) s = Some (Inr (hd (leaf_refs T)))"
proof (induction T)
  case (ALeaf a ks)
  then show ?case by (subst find_leaf.simps) simp
next
  case (ANode a ks ts)
  from ANode.prems obtain c cs where ts: "ts = c # cs" by (cases ts) auto
  from ANode.prems ts have rc: "repr h c" and ic: "tree_inv c" and kc: "\<forall>k\<in>akeys c. s \<le> k"
    by auto
  have su: "scan_up ks s = 0" using ANode.prems by (intro scan_up_least) simp
  have ne: "leaf_refs c \<noteq> []" using ic by (rule leaf_refs_nonempty)
  have "find_leaf h a s = find_leaf h (rt c) s"
    using ANode.prems ts by (subst find_leaf.simps) (simp add: su)
  also have "\<dots> = Some (Inr (hd (leaf_refs c)))"
    using ANode.IH [of c] ts rc ic kc by simp
  finally show ?case using ts ne by simp
qed

lemma range_query_all:
  assumes ok: "tree_ok tr S" and bnd: "\<forall>k\<in>S. lo \<le> k \<and> k \<le> hi"
  shows "\<exists>r. range_query tr lo hi = Some (Inr r) \<and> sorted_wrt (<) r \<and> set r = S"
proof -
  let ?h = "heap tr"
  from ok obtain T where v: "valid ?h T None" and rt: "rt T = root tr"
    and ak: "akeys T = S" and lk: "set (leaf_keys T) = S"
    unfolding tree_ok_def by blast
  from v have r: "repr ?h T" and i: "tree_inv T" and l: "linked ?h (leaf_refs T) None"
    by (simp_all add: valid_def)
  have ne: "leaf_refs T \<noteq> []" using i by (rule leaf_refs_nonempty)
  have fl: "find_leaf ?h (root tr) lo = Some (Inr (hd (leaf_refs T)))"
    using find_leaf_first [OF r i, of lo] bnd ak rt by simp
  have lkeys: "concat (map (\<lambda>l. keys (node ?h l)) (leaf_refs T)) = leaf_keys T"
    using r by (rule leaf_keys_repr)
  have inr: "\<forall>l\<in>set (leaf_refs T). \<forall>k\<in>set (keys (node ?h l)). lo \<le> k \<and> k \<le> hi"
  proof (intro ballI)
    fix l k assume "l \<in> set (leaf_refs T)" "k \<in> set (keys (node ?h l))"
    then have "k \<in> set (concat (map (\<lambda>l. keys (node ?h l)) (leaf_refs T)))" by auto
    with lkeys lk have "k \<in> S" by simp
    with bnd show "lo \<le> k \<and> k \<le> hi" by blast
  qed
  have "range_loop ?h lo hi (first_of (leaf_refs T) None) []
          = range_loop ?h lo hi None ([] @ concat (map (\<lambda>l. keys (node ?h l)) (leaf_refs T)))"
    using l inr by (rule range_loop_chain)
  also have "\<dots> = Some (Inr (leaf_keys T))"
    by (subst range_loop.simps) (simp add: lkeys)
  finally have "range_loop ?h lo hi (Some (hd (leaf_refs T))) [] = Some (Inr (leaf_keys T))"
    using ne by (simp add: first_of_nonempty)
  with fl have "range_query tr lo hi = Some (Inr (leaf_keys T))"
    by (simp add: range_query_def)
  moreover have "sorted_wrt (<) (leaf_keys T)" using i by (rule tree_inv_sorted)
  ultimately show ?thesis using lk by blast
qed



section \<open>Construction\<close>

text \<open>C9 as stated fails: with minimum degree 1 the constructor does not raise.\<close>

theorem init_degree_one_succeeds: "(1::int) < 2 \<and> \<not> isl (BPlusTree_init 1)"
  by (simp add: BPlusTree_init_def new_node_def split: prod.splits)

text \<open>C9, amended: for every integer t, also below 2, the constructor succeeds; the
  index it returns has minimum degree t and a root that is a leaf without keys.\<close>

theorem init_always_succeeds:
  "\<exists>tr. BPlusTree_init t0 = Inr tr \<and> t tr = t0 \<and>
        leaf (node (heap tr) (root tr)) \<and> keys (node (heap tr) (root tr)) = []"
  by (simp add: BPlusTree_init_def new_node_def node_def)

section \<open>Concrete runs\<close>

text \<open>C7: with t = 2, after inserting 10, 20, 5, 6, 12, 30, 7, 17 the query on [6, 17]
  returns 6, 7, 10, 12, 17; after deleting 6 as well it returns 7, 10, 12, 17.\<close>

theorem concrete_scenario:
  "range_query_after 2 (map Insert [10, 20, 5, 6, 12, 30, 7, 17]) 6 17
     = Some (Inr [6, 7, 10, 12, 17]) \<and>
   range_query_after 2 (map Insert [10, 20, 5, 6, 12, 30, 7, 17] @ [Delete 6]) 6 17
     = Some (Inr [7, 10, 12, 17])"
  by code_simp

text \<open>C2 at a failing run: with t = 2, after inserting 1, 2, 3, 4 and deleting 1, 3
  and 2, the only key left is 4, yet the leaf chain still yields the deleted key 2.\<close>

theorem leaf_chain_keeps_deleted_key:
  "leaf_chain_after 2 (map Insert [1, 2, 3, 4] @ [Delete 1, Delete 3, Delete 2])
     = Some (Inr [2, 4])"
  by code_simp

text \<open>C3 at a failing run: with t = 2, after inserting 1, 2, 3, 4 and deleting 3 and
  4, the key 2 is still stored (the leaf chain yields 1, 2), but search 2 finds nothing.\<close>

theorem search_misses_present_key:
  "leaf_chain_after 2 (map Insert [1, 2, 3, 4] @ [Delete 3, Delete 4]) = Some (Inr [1, 2]) \<and>
   search_after 2 (map Insert [1, 2, 3, 4] @ [Delete 3, Delete 4]) 2 = Some (Inr None)"
  by code_simp

text \<open>C4 at a failing run: with t = 2, after inserting 1, ..., 9 the first child of
  the root is an internal node with two keys and only two children.\<close>

theorem internal_split_leaves_two_children:
  "root_child_after 2 (map Insert [1, 2, 3, 4, 5, 6, 7, 8, 9]) 0
     = Some (Inr \<lparr>leaf = False, keys = [2, 4], children = [0, 2], nxt = None\<rparr>)"
  by code_simp

text \<open>C6 at a failing run: with t = 2, after inserting 1, 2, 3, 4 and deleting 1 and
  3 the root holds the key 2 above the leaves [2] and [4]; merging them leaves the root
  without keys and one leaf, which holds the separator as well: 2, 2, 4.\<close>

theorem leaf_merge_adds_separator:
  "merge_root_after 2 (map Insert [1, 2, 3, 4] @ [Delete 1, Delete 3]) 0
     = Some (Inr ([], [[2, 2, 4]]))"
  by code_simp

text \<open>C8 at a failing run: with t = 2, after inserting 1, 2, 3, 4 and deleting 2 and
  3 the index holds 1 and 4 under the root key 2; deleting the absent key 5 raises
  IndexError, and deleting the absent key 0 brings the key 2 back.\<close>

theorem delete_absent_key_fails:
  "leaf_chain_after 2 (map Insert [1, 2, 3, 4] @ [Delete 2, Delete 3]) = Some (Inr [1, 4]) \<and>
   raises (build 2 (map Insert [1, 2, 3, 4] @ [Delete 2, Delete 3, Delete 5])) IndexError \<and>
   leaf_chain_after 2 (map Insert [1, 2, 3, 4] @ [Delete 2, Delete 3, Delete 0])
     = Some (Inr [1, 2, 4])"
  by code_simp

text \<open>C10 at a failing run: with t = 2, after inserting 1, ..., 12, inserting 8 again
  raises IndexError instead of storing a second copy.\<close>

theorem insert_duplicate_raises:
  "raises (build 2 (map Insert [1, 2, 3, 4, 5, 6, 7, 8, 9, 10, 11, 12] @ [Insert 8])) IndexError"
  by code_simp

section \<open>Split\<close>

text \<open>C5 as stated fails: with t = 2, splitting the full leaf 1, 2, 3 leaves t = 2 keys in
  the original leaf, 1 and 2, not t - 1; the promoted key 2 is the last key of the original
  leaf, and the first key of the new sibling is 3.\<close>

theorem split_keeps_median_left:
  "keys_after_split 2 split_example 1 0 0 = Inr [1, 2] \<and>
   keys_after_split 2 split_example 1 0 1 = Inr [2] \<and>
   keys_after_split 2 split_example 1 0 2 = Inr [3]"
  by code_simp


text \<open>C5, amended: when a full child with 2t - 1 keys is split (t at least 2), the key at
  index t - 1 goes into the parent at the child's position, and a new right sibling of the
  same kind, placed right after the child in the parent's children, takes the keys at
  indices t to 2t - 2. For a leaf, the first t keys, the median included, stay in the
  original leaf, so that the promoted key is a copy of its last key and no key leaves the
  leaves; the sibling is put into the leaf chain right after the original.\<close>

theorem split_child_copy_up:
  assumes "i < length (children (node h x))" and "children (node h x) ! i = y"
    and "x < length h" and "y < length h" and "x \<noteq> y"
    and "int (length (keys (node h y))) = 2 * t0 - 1" and "2 \<le> t0"
  shows "\<exists>h'. split_child t0 h x (int i) = Inr h' \<and>
     keys (node h' x) = take i (keys (node h x)) @ keys (node h y) ! nat (t0 - 1)
                          # drop i (keys (node h x)) \<and>
     children (node h' x) = take (Suc i) (children (node h x)) @ length h
                          # drop (Suc i) (children (node h x)) \<and>
     leaf (node h' (length h)) = leaf (node h y) \<and>
     keys (node h' (length h)) = drop (nat t0) (keys (node h y)) \<and>
     (leaf (node h y) \<longrightarrow>
        keys (node h' y) = take (nat t0) (keys (node h y)) \<and>
        last (keys (node h' y)) = keys (node h y) ! nat (t0 - 1) \<and>
        keys (node h' y) @ keys (node h' (length h)) = keys (node h y) \<and>
        nxt (node h' y) = Some (length h) \<and>
        nxt (node h' (length h)) = nxt (node h y))"
proof -
  have t1: "1 \<le> t0" using assms(7) by simp
  from split_child_result [OF assms(1-6) t1]
  obtain h' where s: "split_child t0 h x (int i) = Inr h'"
    and nx: "node h' x = (node h x)\<lparr>keys := take i (keys (node h x))
                 @ keys (node h y) ! nat (t0 - 1) # drop i (keys (node h x)),
               children := take (Suc i) (children (node h x)) @ length h
                 # drop (Suc i) (children (node h x))\<rparr>"
    and ny: "node h' y = (node h y)\<lparr>keys := take (nat t0) (keys (node h y)),
               children := (if leaf (node h y) then children (node h y)
                            else take (nat t0) (children (node h y))),
               nxt := (if leaf (node h y) then Some (length h) else nxt (node h y))\<rparr>"
    and nz: "node h' (length h) = \<lparr>leaf = leaf (node h y),
               keys = drop (nat t0) (keys (node h y)),
               children = (if leaf (node h y) then [] else drop (nat t0) (children (node h y))),
               nxt = (if leaf (node h y) then nxt (node h y) else None)\<rparr>"
    by blast
  have len: "nat t0 \<le> length (keys (node h y))" "0 < nat t0"
    using assms(6) assms(7) by auto
  have "last (take (nat t0) (keys (node h y))) = keys (node h y) ! (nat t0 - 1)"
    using len by (simp add: last_take_nth)
  moreover have "nat (t0 - 1) = nat t0 - 1" by simp
  ultimately have lst: "last (take (nat t0) (keys (node h y))) = keys (node h y) ! nat (t0 - 1)"
    by simp
  show ?thesis
    using s nx ny nz lst by (intro exI [of _ h']) simp
qed


theorem split_child_copy_up_witness:
  "(0::nat) < length (children (node split_example 1)) \<and>
   children (node split_example 1) ! 0 = 0 \<and>
   (1::nat) < length split_example \<and> (0::nat) < length split_example \<and> (1::nat) \<noteq> 0 \<and>
   int (length (keys (node split_example 0))) = 2 * 2 - 1 \<and> (2::int) \<le> 2 \<and>
   leaf (node split_example 0) \<and>
   (\<exists>h'. split_child 2 split_example 1 (int 0) = Inr h' \<and>
      keys (node h' 1) = [2] \<and> children (node h' 1) = [0, 2] \<and>
      leaf (node h' 2) \<and> keys (node h' 2) = [3] \<and>
      keys (node h' 0) = [1, 2] \<and> last (keys (node h' 0)) = 2 \<and>
      keys (node h' 0) @ keys (node h' 2) = [1, 2, 3] \<and>
      nxt (node h' 0) = Some 2 \<and> nxt (node h' 2) = None)"
  using split_child_copy_up [of 0 split_example 1 0 2]
  by (simp add: split_example_def node_def numeral_2_eq_2)

section \<open>Round trip\<close>

text \<open>C1: on a new index with minimum degree at least 2, after inserting distinct keys in
  any order, range_query with bounds that enclose them all returns them in strictly
  ascending order, none missing (strictly ascending, so none twice).\<close>

theorem round_trip:
  assumes "2 \<le> t0" and "distinct ks" and "\<forall>k\<in>set ks. lo \<le> k \<and> k \<le> hi"
  shows "\<exists>r. range_query_after t0 (map Insert ks) lo hi = Some (Inr r) \<and>
             sorted_wrt (<) r \<and> set r = set ks"
proof -
  from build_inserts [OF assms(1) assms(2)]
  obtain tr where b: "build t0 (map Insert ks) = Some (Inr tr)" and ok: "tree_ok tr (set ks)"
    by blast
  from range_query_all [OF ok assms(3)] b show ?thesis
    by (simp add: range_query_after_def)
qed


theorem round_trip_witness:
  "(2::int) \<le> 2 \<and> distinct [3, 1, 2 :: int] \<and>
   ((1::int) \<le> 3 \<and> (3::int) \<le> 3) \<and> ((1::int) \<le> 1 \<and> (1::int) \<le> 3) \<and>
   ((1::int) \<le> 2 \<and> (2::int) \<le> 3) \<and>
   (\<exists>r. range_query_after 2 (map Insert [3, 1, 2]) 1 3 = Some (Inr r) \<and>
        sorted_wrt (<) r \<and> set r = set [3, 1, 2])"
  using round_trip [of 2 "[3, 1, 2]" 1 3] by simp

end
